theory Spec2Isabelle
  imports Main "HOL-Library.Sublist"
begin

section \<open>One-way directory synchronisation (file_sync.py)\<close>

text \<open>
  The program walks a source directory, mirrors its directories under a destination
  and copies, overwrites or skips each file after comparing sizes; it then writes a
  dated text report. The embedding follows \<^verbatim>\<open>sync_copy\<close>, \<^verbatim>\<open>write_report\<close>,
  \<^verbatim>\<open>write_error_report\<close> and \<^verbatim>\<open>main\<close> of \<^verbatim>\<open>src/file_sync.py\<close>.

  Scope of the file-system model. The source and the destination are two disjoint
  subtrees of the file system: the walk sees the source as it was when the run began.
  Every primitive succeeds or fails as the modelled state dictates; faults of the host
  (permissions, a full disk, another process changing the trees during the run) are
  outside the model. Paths handed to the program are absolute and normalised, so
  \<^verbatim>\<open>os.path.abspath\<close> leaves them as they are.
\<close>

subsection \<open>Exceptions\<close>

text \<open>Each constructor carries the text that \<^verbatim>\<open>str(e)\<close> returns.\<close>

datatype exn =
    FileNotFoundError string
  | NotADirectoryError string
  | FileExistsError string
  | IsADirectoryError string
  | PermissionError string
  | NameError string
  | KeyError string
  | SpecialFileError string

fun str_exn :: "exn \<Rightarrow> string" where
  "str_exn (FileNotFoundError m) = m"
| "str_exn (NotADirectoryError m) = m"
| "str_exn (FileExistsError m) = m"
| "str_exn (IsADirectoryError m) = m"
| "str_exn (PermissionError m) = m"
| "str_exn (NameError m) = m"
| "str_exn (KeyError m) = m"
| "str_exn (SpecialFileError m) = m"

fun is_FileExistsError :: "exn \<Rightarrow> bool" where
  "is_FileExistsError (FileExistsError m) = True"
| "is_FileExistsError e = False"

text \<open>
  The \<^verbatim>\<open>repr\<close> of a path inside a message. Names hold no apostrophe, backslash or
  control character, for which \<^verbatim>\<open>repr\<close> would quote or escape otherwise.
\<close>

definition quoted :: "string \<Rightarrow> string" where
  "quoted s = [CHR 0x27] @ s @ [CHR 0x27]"

text \<open>\<^verbatim>\<open>str\<close> of an \<^verbatim>\<open>OSError\<close> raised by the operating system for a path.\<close>

definition enoent :: "string \<Rightarrow> exn" where
  "enoent p = FileNotFoundError (''[Errno 2] No such file or directory: '' @ quoted p)"

definition eexist :: "string \<Rightarrow> exn" where
  "eexist p = FileExistsError (''[Errno 17] File exists: '' @ quoted p)"

definition enotdir :: "string \<Rightarrow> exn" where
  "enotdir p = NotADirectoryError (''[Errno 20] Not a directory: '' @ quoted p)"

definition eisdir :: "string \<Rightarrow> exn" where
  "eisdir p = IsADirectoryError (''[Errno 21] Is a directory: '' @ quoted p)"

text \<open>
  \<^verbatim>\<open>os.symlink(target, path)\<close> is a call on two paths, and its \<^verbatim>\<open>OSError\<close> names both.
\<close>

definition enoent2 :: "string \<Rightarrow> string \<Rightarrow> exn" where
  "enoent2 t p =
     FileNotFoundError (''[Errno 2] No such file or directory: '' @ quoted t @ '' -> '' @ quoted p)"

definition eexist2 :: "string \<Rightarrow> string \<Rightarrow> exn" where
  "eexist2 t p = FileExistsError (''[Errno 17] File exists: '' @ quoted t @ '' -> '' @ quoted p)"

definition enotdir2 :: "string \<Rightarrow> string \<Rightarrow> exn" where
  "enotdir2 t p =
     NotADirectoryError (''[Errno 20] Not a directory: '' @ quoted t @ '' -> '' @ quoted p)"

text \<open>\<^verbatim>\<open>shutil.copyfile\<close> refuses a named pipe with \<^verbatim>\<open>SpecialFileError\<close>.\<close>

definition named_pipe :: "string \<Rightarrow> exn" where
  "named_pipe p = SpecialFileError ([CHR 0x60] @ p @ [CHR 0x60] @ '' is a named pipe'')"

text \<open>
  Lines 102 and 105 pass \<^verbatim>\<open>follow_symlinks=false\<close>. The module binds no name
  \<^verbatim>\<open>false\<close> (Python's constant is \<^verbatim>\<open>False\<close>), so evaluating the argument raises
  \<^verbatim>\<open>NameError\<close> before \<^verbatim>\<open>shutil.copy2\<close> is entered.
\<close>

definition name_false :: "exn + bool" where
  "name_false = Inl (NameError (''name '' @ quoted ''false'' @ '' is not defined''))"

subsection \<open>Paths\<close>

type_synonym path = "string list"

text \<open>\<^verbatim>\<open>posixpath.join\<close> for two arguments.\<close>

definition os_path_join :: "string \<Rightarrow> string \<Rightarrow> string" where
  "os_path_join a b =
     (if b \<noteq> [] \<and> hd b = CHR ''/'' then b
      else if a = [] \<or> last a = CHR ''/'' then a @ b
      else a @ ''/'' @ b)"

text \<open>
  A path relative to a root is the list of its components; \<open>rel_str\<close> is the string
  \<^verbatim>\<open>os.path.relpath\<close> returns for it, with the root itself already mapped from
  \<^verbatim>\<open>"."\<close> to the empty string (lines 71-72).
\<close>

fun rel_str :: "path \<Rightarrow> string" where
  "rel_str [] = []"
| "rel_str [n] = n"
| "rel_str (n # m # ns) = n @ ''/'' @ rel_str (m # ns)"

text \<open>The string of a directory of the walk: \<^verbatim>\<open>os.walk\<close> joins one name at a time.\<close>

definition root_str :: "string \<Rightarrow> path \<Rightarrow> string" where
  "root_str src r = foldl os_path_join src r"

definition dst_dir_str :: "string \<Rightarrow> path \<Rightarrow> string" where
  "dst_dir_str dst r = os_path_join dst (rel_str r)"

subsection \<open>The source tree\<close>

text \<open>
  What a link at the destination resolves to: a file with its bytes, or a directory.
\<close>

datatype target = TFile string | TDir

text \<open>
  A regular file holds its bytes. A symbolic link holds its target text, the bytes of
  the file it resolves to where it stands in the source (\<open>None\<close> when it dangles), and
  what a link with the same text resolves to at the mirrored place in the destination:
  \<^verbatim>\<open>os.symlink\<close> copies the text only, and a relative target is resolved from where
  the link stands. A symbolic link to a directory is listed by the walk among the
  directories and is not descended into. A named pipe (FIFO) is listed among the files.
\<close>

datatype snode =
    SFile string
  | SLink string "string option" "target option"
  | SDirLink string
  | SDir "(string \<times> snode) list"
  | SFifo

fun is_dir_entry :: "snode \<Rightarrow> bool" where
  "is_dir_entry (SDir es) = True"
| "is_dir_entry (SDirLink t) = True"
| "is_dir_entry n = False"

text \<open>
  \<^verbatim>\<open>os.walk(src, followlinks=False)\<close>, top-down: each directory yields its own triple
  (path relative to the top, names of its directories, its other entries) before its
  subdirectories are walked in listing order.
\<close>

fun walk :: "path \<Rightarrow> (string \<times> snode) list \<Rightarrow> (path \<times> string list \<times> (string \<times> snode) list) list"
  and walk_subs :: "path \<Rightarrow> (string \<times> snode) list \<Rightarrow> (path \<times> string list \<times> (string \<times> snode) list) list"
where
  "walk r es =
     (r, map fst (filter (\<lambda>e. is_dir_entry (snd e)) es), filter (\<lambda>e. \<not> is_dir_entry (snd e)) es)
       # walk_subs r es"
| "walk_subs r [] = []"
| "walk_subs r ((n, SDir ch) # rest) = walk (r @ [n]) ch @ walk_subs r rest"
| "walk_subs r ((n, SFile c) # rest) = walk_subs r rest"
| "walk_subs r ((n, SLink t c d) # rest) = walk_subs r rest"
| "walk_subs r ((n, SDirLink t) # rest) = walk_subs r rest"
| "walk_subs r ((n, SFifo) # rest) = walk_subs r rest"

text \<open>\<^verbatim>\<open>os.path.getsize\<close> of a source entry follows links; \<open>None\<close> is \<^verbatim>\<open>OSError\<close>.\<close>

definition dir_st_size :: nat where
  "dir_st_size = 4096"

fun getsize_src :: "snode \<Rightarrow> nat option" where
  "getsize_src (SFile c) = Some (length c)"
| "getsize_src (SLink t None d) = None"
| "getsize_src (SLink t (Some c) d) = Some (length c)"
| "getsize_src (SDirLink t) = Some dir_st_size"
| "getsize_src (SDir es) = Some dir_st_size"
| "getsize_src SFifo = Some 0"

subsection \<open>The destination store\<close>

text \<open>
  The destination is a map from paths relative to its root to nodes; the root is \<open>[]\<close>.
  A link holds its target text and what it resolves to. A store stands for a file
  system, so a path it holds has its parent as a directory; the primitives look at a
  path and, where they create an entry, at its parent.
\<close>

datatype dnode =
    DFile string
  | DLink string "target option"
  | DDir

type_synonym dstore = "path \<rightharpoonup> dnode"

text \<open>\<^verbatim>\<open>os.path.exists\<close> and \<^verbatim>\<open>os.path.isdir\<close> follow links.\<close>

definition exists :: "dstore \<Rightarrow> path \<Rightarrow> bool" where
  "exists fs p =
     (case fs p of None \<Rightarrow> False | Some (DLink t None) \<Rightarrow> False | Some n \<Rightarrow> True)"

definition isdir :: "dstore \<Rightarrow> path \<Rightarrow> bool" where
  "isdir fs p =
     (case fs p of Some DDir \<Rightarrow> True | Some (DLink t (Some TDir)) \<Rightarrow> True | _ \<Rightarrow> False)"

definition getsize :: "dstore \<Rightarrow> path \<Rightarrow> nat option" where
  "getsize fs p =
     (case fs p of
        None \<Rightarrow> None
      | Some (DFile c) \<Rightarrow> Some (length c)
      | Some DDir \<Rightarrow> Some dir_st_size
      | Some (DLink t None) \<Rightarrow> None
      | Some (DLink t (Some (TFile c))) \<Rightarrow> Some (length c)
      | Some (DLink t (Some TDir)) \<Rightarrow> Some dir_st_size)"

text \<open>
  \<^verbatim>\<open>os.mkdir\<close>: the parent must be a directory and nothing, not even a dangling link,
  may be at the path. The parent of the destination root lies outside the store and
  is taken to exist.
\<close>

definition mkdir :: "string \<Rightarrow> dstore \<Rightarrow> path \<Rightarrow> exn + dstore" where
  "mkdir name fs p =
     (if p \<noteq> [] \<and> \<not> isdir fs (butlast p) then
        (if exists fs (butlast p) then Inl (enotdir name) else Inl (enoent name))
      else if fs p \<noteq> None then Inl (eexist name)
      else Inr (fs(p \<mapsto> DDir)))"

text \<open>
  \<^verbatim>\<open>os.makedirs(name, exist_ok=True)\<close>: make the missing parent first, swallowing its
  \<^verbatim>\<open>FileExistsError\<close>; then \<^verbatim>\<open>mkdir\<close>, whose \<^verbatim>\<open>OSError\<close> is swallowed only when the path
  is a directory. The result is the store reached and the exception raised, if any;
  \<open>nm\<close> gives the path string of a directory, for the messages.
\<close>

function makedirs :: "(path \<Rightarrow> string) \<Rightarrow> dstore \<Rightarrow> path \<Rightarrow> dstore \<times> exn option" where
  "makedirs nm fs p =
     (let (fs1, r) =
            (if p \<noteq> [] \<and> \<not> exists fs (butlast p) then
               (case makedirs nm fs (butlast p) of
                  (fs', Some e) \<Rightarrow> (fs', if is_FileExistsError e then None else Some e)
                | (fs', None) \<Rightarrow> (fs', None))
             else (fs, None))
      in case r of
           Some e \<Rightarrow> (fs1, Some e)
         | None \<Rightarrow>
             (case mkdir (nm p) fs1 p of
                Inr fs2 \<Rightarrow> (fs2, None)
              | Inl e \<Rightarrow> (fs1, if isdir fs1 p then None else Some e)))"
  by pat_completeness auto
termination
  by (relation "measure (\<lambda>(nm, fs, p). length p)") auto

declare makedirs.simps [simp del]

text \<open>
  Writing bytes with \<^verbatim>\<open>open(path, "wb")\<close>: a new file is created in an existing
  directory, a regular file is replaced, a link is written through, a directory
  refuses. The file a link leads to lies outside the store: only what the link
  resolves to is recorded, and the directory of a dangling link's target is taken to
  exist.
\<close>

definition write_file :: "string \<Rightarrow> dstore \<Rightarrow> path \<Rightarrow> string \<Rightarrow> exn + dstore" where
  "write_file name fs p c =
     (if p \<noteq> [] \<and> \<not> isdir fs (butlast p) then
        (if exists fs (butlast p) then Inl (enotdir name) else Inl (enoent name))
      else
        (case fs p of
           None \<Rightarrow> Inr (fs(p \<mapsto> DFile c))
         | Some (DFile old) \<Rightarrow> Inr (fs(p \<mapsto> DFile c))
         | Some DDir \<Rightarrow> Inl (eisdir name)
         | Some (DLink t (Some TDir)) \<Rightarrow> Inl (eisdir name)
         | Some (DLink t (Some (TFile old))) \<Rightarrow> Inr (fs(p \<mapsto> DLink t (Some (TFile c))))
         | Some (DLink t None) \<Rightarrow> Inr (fs(p \<mapsto> DLink t (Some (TFile c))))))"

text \<open>\<^verbatim>\<open>os.symlink(target, path)\<close>: nothing may be at the path.\<close>

definition symlink :: "string \<Rightarrow> dstore \<Rightarrow> path \<Rightarrow> string \<Rightarrow> target option \<Rightarrow> exn + dstore" where
  "symlink name fs p t r =
     (if p \<noteq> [] \<and> \<not> isdir fs (butlast p) then
        (if exists fs (butlast p) then Inl (enotdir2 t name) else Inl (enoent2 t name))
      else if fs p \<noteq> None then Inl (eexist2 t name)
      else Inr (fs(p \<mapsto> DLink t r)))"

text \<open>
  \<^verbatim>\<open>shutil.copyfile(src, dst, follow_symlinks=follow)\<close>: a named pipe is refused; a
  link is recreated when links are not followed; otherwise the bytes the source
  resolves to are written.
\<close>

fun copyfile :: "bool \<Rightarrow> string \<Rightarrow> snode \<Rightarrow> string \<Rightarrow> dstore \<Rightarrow> path \<Rightarrow> exn + dstore" where
  "copyfile follow sname (SFile c) dname fs p = write_file dname fs p c"
| "copyfile follow sname (SLink t r d) dname fs p =
     (if \<not> follow then symlink dname fs p t d
      else (case r of None \<Rightarrow> Inl (enoent sname) | Some c \<Rightarrow> write_file dname fs p c))"
| "copyfile follow sname (SDirLink t) dname fs p =
     (if \<not> follow then symlink dname fs p t (Some TDir) else Inl (eisdir sname))"
| "copyfile follow sname (SDir es) dname fs p = Inl (eisdir sname)"
| "copyfile follow sname SFifo dname fs p = Inl (named_pipe sname)"

text \<open>
  \<^verbatim>\<open>shutil.copy2\<close>: a destination that is a directory receives the file under the
  source's base name; then \<^verbatim>\<open>copyfile\<close> and \<^verbatim>\<open>copystat\<close> (metadata is not modelled).
\<close>

definition copy2 :: "bool \<Rightarrow> string \<Rightarrow> string \<Rightarrow> snode \<Rightarrow> string \<Rightarrow> dstore \<Rightarrow> path \<Rightarrow> exn + dstore" where
  "copy2 follow sname fname node dname fs p =
     (if isdir fs p then copyfile follow sname node (os_path_join dname fname) fs (p @ [fname])
      else copyfile follow sname node dname fs p)"

subsection \<open>The result dictionary\<close>

type_synonym results = "string \<rightharpoonup> string list"

definition init_results :: results where
  "init_results = [''new'' \<mapsto> [], ''overwritten'' \<mapsto> [], ''skipped'' \<mapsto> [], ''errors'' \<mapsto> []]"

text \<open>\<^verbatim>\<open>results[k].append(x)\<close>; a missing key raises \<^verbatim>\<open>KeyError\<close>.\<close>

definition append_to :: "string \<Rightarrow> string \<Rightarrow> results \<Rightarrow> exn + results" where
  "append_to k x res =
     (case res k of None \<Rightarrow> Inl (KeyError (quoted k)) | Some l \<Rightarrow> Inr (res(k \<mapsto> l @ [x])))"

text \<open>\<^verbatim>\<open>results.get(k, [])\<close>.\<close>

definition get_list :: "results \<Rightarrow> string \<Rightarrow> string list" where
  "get_list res k = (case res k of None \<Rightarrow> [] | Some l \<Rightarrow> l)"

subsection \<open>The engine: \<^verbatim>\<open>sync_copy\<close>\<close>

text \<open>
  The body of the \<^verbatim>\<open>try\<close> of lines 81-109 for the file \<open>fname\<close> of the walked
  directory \<open>r\<close>. It returns the store reached and either the exception raised or the
  results.
\<close>

definition try_body ::
  "string \<Rightarrow> string \<Rightarrow> path \<Rightarrow> string \<Rightarrow> snode \<Rightarrow> dstore \<Rightarrow> results \<Rightarrow> dstore \<times> (exn + results)" where
  "try_body src dst r fname node fs res =
     (let src_path = os_path_join (root_str src r) fname;
          dst_path = os_path_join (dst_dir_str dst r) fname;
          p = r @ [fname]
      in if \<not> exists fs p then
           (case copy2 False src_path fname node dst_path fs p of
              Inl e \<Rightarrow> (fs, Inl e)
            | Inr fs' \<Rightarrow> (fs', append_to ''new'' (rel_str p) res))
         else
           (let src_size = getsize_src node; dst_size = getsize fs p
            in if src_size = None \<or> dst_size = None then
                 (case name_false of
                    Inl e \<Rightarrow> (fs, Inl e)
                  | Inr b \<Rightarrow>
                      (case copy2 b src_path fname node dst_path fs p of
                         Inl e \<Rightarrow> (fs, Inl e)
                       | Inr fs' \<Rightarrow> (fs', append_to ''overwritten'' (rel_str p) res)))
               else if src_size \<noteq> dst_size then
                 (case name_false of
                    Inl e \<Rightarrow> (fs, Inl e)
                  | Inr b \<Rightarrow>
                      (case copy2 b src_path fname node dst_path fs p of
                         Inl e \<Rightarrow> (fs, Inl e)
                       | Inr fs' \<Rightarrow> (fs', append_to ''overwritten'' (rel_str p) res)))
               else (fs, append_to ''skipped'' (rel_str p) res)))"

text \<open>The \<^verbatim>\<open>try\<close> with its handler \<^verbatim>\<open>except Exception as e\<close> (lines 110-111).\<close>

definition sync_file ::
  "string \<Rightarrow> string \<Rightarrow> path \<Rightarrow> string \<Rightarrow> snode \<Rightarrow> dstore \<Rightarrow> results \<Rightarrow> dstore \<times> (exn + results)" where
  "sync_file src dst r fname node fs res =
     (case try_body src dst r fname node fs res of
        (fs', Inr res') \<Rightarrow> (fs', Inr res')
      | (fs', Inl e) \<Rightarrow>
          (fs', append_to ''errors'' (rel_str (r @ [fname]) @ '' -> '' @ str_exn e) res))"

text \<open>\<^verbatim>\<open>for fname in files\<close> (line 77).\<close>

fun sync_files ::
  "string \<Rightarrow> string \<Rightarrow> path \<Rightarrow> (string \<times> snode) list \<Rightarrow> dstore \<Rightarrow> results \<Rightarrow> dstore \<times> (exn + results)" where
  "sync_files src dst r [] fs res = (fs, Inr res)"
| "sync_files src dst r ((fname, node) # rest) fs res =
     (case sync_file src dst r fname node fs res of
        (fs', Inl e) \<Rightarrow> (fs', Inl e)
      | (fs', Inr res') \<Rightarrow> sync_files src dst r rest fs' res')"

text \<open>\<^verbatim>\<open>for root, dirs, files in os.walk(...)\<close> (lines 68-111).\<close>

fun sync_walk ::
  "string \<Rightarrow> string \<Rightarrow> (path \<times> string list \<times> (string \<times> snode) list) list \<Rightarrow> dstore \<Rightarrow> results
     \<Rightarrow> dstore \<times> (exn + results)" where
  "sync_walk src dst [] fs res = (fs, Inr res)"
| "sync_walk src dst ((r, dirs, files) # todo) fs res =
     (case makedirs (dst_dir_str dst) fs r of
        (fs1, Some e) \<Rightarrow> (fs1, Inl e)
      | (fs1, None) \<Rightarrow>
          (case sync_files src dst r files fs1 res of
             (fs2, Inl e) \<Rightarrow> (fs2, Inl e)
           | (fs2, Inr res2) \<Rightarrow> sync_walk src dst todo fs2 res2))"

text \<open>
  The world of one run: what the source path resolves to (\<open>None\<close> when nothing is
  there; a source path that is a link to a directory is given as that directory), the
  destination store, and the store of a report directory given apart from the
  destination.
\<close>

record world =
  source :: "snode option"
  dest :: dstore
  reports :: dstore

definition src_exists :: "world \<Rightarrow> bool" where
  "src_exists w = (case source w of None \<Rightarrow> False | Some (SLink t None d) \<Rightarrow> False | Some n \<Rightarrow> True)"

definition src_entries :: "world \<Rightarrow> (string \<times> snode) list option" where
  "src_entries w = (case source w of Some (SDir es) \<Rightarrow> Some es | _ \<Rightarrow> None)"

definition sync_copy :: "string \<Rightarrow> string \<Rightarrow> world \<Rightarrow> world \<times> (exn + results)" where
  "sync_copy src dst w =
     (if \<not> src_exists w then (w, Inl (FileNotFoundError (''Source not found: '' @ src)))
      else
        (case src_entries w of
           None \<Rightarrow> (w, Inl (NotADirectoryError (''Source is not a directory: '' @ src)))
         | Some es \<Rightarrow>
             (case sync_walk src dst (walk [] es) (dest w) init_results of
                (fs, out) \<Rightarrow> (w\<lparr>dest := fs\<rparr>, out))))"

text \<open>The four keys of the result, and a result that holds them all.\<close>

definition result_keys :: "string list" where
  "result_keys = [''new'', ''overwritten'', ''skipped'', ''errors'']"

definition has_keys :: "results \<Rightarrow> bool" where
  "has_keys res =
     (res ''new'' \<noteq> None \<and> res ''overwritten'' \<noteq> None \<and> res ''skipped'' \<noteq> None
      \<and> res ''errors'' \<noteq> None)"

text \<open>The paths of the file entries of a walk, in the order the loops meet them.\<close>

definition walk_files :: "(path \<times> string list \<times> (string \<times> snode) list) list \<Rightarrow> path list" where
  "walk_files triples = concat (map (\<lambda>(r, dirs, files). map (\<lambda>f. r @ [fst f]) files) triples)"

text \<open>
  A log pairs a key with the string recorded under it. \<open>tagged k log\<close> are the
  strings of the log recorded under \<open>k\<close>; \<open>entry_for p e\<close> says that \<open>e\<close> is an
  outcome of the file at \<open>p\<close>: its relative path under one of the three lists, or its
  relative path, an arrow and a message under \<open>errors\<close>.
\<close>

definition tagged :: "string \<Rightarrow> (string \<times> string) list \<Rightarrow> string list" where
  "tagged k log = map snd (filter (\<lambda>e. fst e = k) log)"

definition entry_for :: "path \<Rightarrow> string \<times> string \<Rightarrow> bool" where
  "entry_for p e =
     (fst e \<in> set result_keys \<and>
      (if fst e = ''errors'' then prefix (rel_str p @ '' -> '') (snd e) else snd e = rel_str p))"

subsection \<open>The report writer\<close>

text \<open>\<^verbatim>\<open>str(n)\<close> for a count, as an f-string renders it.\<close>

fun str_nat :: "nat \<Rightarrow> string" where
  "str_nat n = (if n < 10 then [''0123456789'' ! n] else str_nat (n div 10) @ [''0123456789'' ! (n mod 10)])"

declare str_nat.simps [simp del]

definition nl :: string where
  "nl = [CHR 0x0A]"

text \<open>
  The date string of \<^verbatim>\<open>chicago_today_str\<close> comes from the clock and is a parameter
  \<open>date\<close>. The report name is one path component: \<open>file_name\<close> holds no separator.
\<close>

definition report_name :: "string \<Rightarrow> string \<Rightarrow> string" where
  "report_name date file_name = date @ ''_'' @ file_name @ ''.txt''"

text \<open>The path string of a directory named directly, as \<^verbatim>\<open>os.makedirs(dst)\<close> receives it.\<close>

definition dir_str :: "string \<Rightarrow> path \<Rightarrow> string" where
  "dir_str d p = (if p = [] then d else os_path_join d (rel_str p))"

text \<open>The strings handed to \<^verbatim>\<open>f.write\<close> by \<^verbatim>\<open>write_report\<close>, in order (lines 147-164).\<close>

definition report_writes :: "string \<Rightarrow> results \<Rightarrow> string list" where
  "report_writes date res =
     (let new_count = length (get_list res ''new'');
          overwritten_count = length (get_list res ''overwritten'');
          skipped_count = length (get_list res ''skipped'');
          errors = get_list res ''errors''
      in [''Report date (America/Chicago): '' @ date @ nl,
          ''Summary:'' @ nl,
          ''  New files:         '' @ str_nat new_count @ nl,
          ''  Overwritten files: '' @ str_nat overwritten_count @ nl,
          ''  Skipped files:     '' @ str_nat skipped_count @ nl,
          ''  Errors:            '' @ str_nat (length errors) @ nl,
          nl]
         @ (if errors \<noteq> [] then [''Errors:'' @ nl] @ map (\<lambda>e. ''  '' @ e @ nl) errors @ [nl] else [])
         @ [''End of report'' @ nl])"

definition write_report ::
  "string \<Rightarrow> results \<Rightarrow> dstore \<Rightarrow> string \<Rightarrow> string \<Rightarrow> dstore \<times> (exn + string)" where
  "write_report date res st report_directory file_name =
     (case makedirs (dir_str report_directory) st [] of
        (st1, Some e) \<Rightarrow> (st1, Inl e)
      | (st1, None) \<Rightarrow>
          (let report_path = os_path_join report_directory (report_name date file_name)
           in case write_file report_path st1 [report_name date file_name]
                     (concat (report_writes date res)) of
                Inl e \<Rightarrow> (st1, Inl e)
              | Inr st2 \<Rightarrow> (st2, Inr report_path)))"



text \<open>Reading a file back, through a link if there is one.\<close>

definition read_file :: "dstore \<Rightarrow> path \<Rightarrow> string option" where
  "read_file st p =
     (case st p of
        Some (DFile c) \<Rightarrow> Some c
      | Some (DLink t (Some (TFile c))) \<Rightarrow> Some c
      | _ \<Rightarrow> None)"

text \<open>Reading a decimal numeral, to state what a count line shows.\<close>

definition nat_of_str :: "string \<Rightarrow> nat" where
  "nat_of_str s = foldl (\<lambda>a c. 10 * a + (of_char c - 48)) 0 s"

text \<open>A result with every missing list of the four filled in as the empty list.\<close>

definition with_defaults :: "results \<Rightarrow> results" where
  "with_defaults res = (\<lambda>k. if k \<in> set result_keys then Some (get_list res k) else res k)"

subsection \<open>The command line: \<^verbatim>\<open>main\<close>\<close>








subsection \<open>The mirror image of a walk\<close>

text \<open>
  What the copy of a file entry is at the destination when links are not followed: a
  regular file with the same bytes, a link with the same target text, resolving as the
  destination has it. A named pipe has no copy, and a directory or a link to one is
  never a file entry: the last three clauses only make the function total.
\<close>

fun copy_of :: "snode \<Rightarrow> dnode" where
  "copy_of (SFile c) = DFile c"
| "copy_of (SLink t r d) = DLink t d"
| "copy_of (SDirLink t) = DLink t (Some TDir)"
| "copy_of (SDir es) = DDir"
| "copy_of SFifo = DFile []"

text \<open>
  The paths a run writes for a walk, with the node written at each: every walked
  directory and, under it, the copy of each of its file entries.
\<close>

definition mirror_entries :: "(path \<times> string list \<times> (string \<times> snode) list) list \<Rightarrow> (path \<times> dnode) list" where
  "mirror_entries triples =
     concat (map (\<lambda>(r, dirs, files). (r, DDir) # map (\<lambda>e. (r @ [fst e], copy_of (snd e))) files) triples)"

text \<open>Storing a list of nodes, one after the other.\<close>

definition put_all :: "(path \<times> dnode) list \<Rightarrow> dstore \<Rightarrow> dstore" where
  "put_all xs fs = fold (\<lambda>e fs. fs(fst e \<mapsto> snd e)) xs fs"

text \<open>
  A directory listing never holds a name twice: the names of the entries of every
  directory of the tree are distinct.
\<close>

fun distinct_names :: "(string \<times> snode) list \<Rightarrow> bool" where
  "distinct_names [] = True"
| "distinct_names ((n, SDir ch) # rest) = (n \<notin> fst ` set rest \<and> distinct_names ch \<and> distinct_names rest)"
| "distinct_names ((n, SFile c) # rest) = (n \<notin> fst ` set rest \<and> distinct_names rest)"
| "distinct_names ((n, SLink t c d) # rest) = (n \<notin> fst ` set rest \<and> distinct_names rest)"
| "distinct_names ((n, SDirLink t) # rest) = (n \<notin> fst ` set rest \<and> distinct_names rest)"
| "distinct_names ((n, SFifo) # rest) = (n \<notin> fst ` set rest \<and> distinct_names rest)"



text \<open>The empty destination: the root directory and nothing below it.\<close>

definition empty_dest :: dstore where
  "empty_dest = [[] \<mapsto> DDir]"

subsection \<open>Concrete worlds\<close>

text \<open>
  The source holds \<^verbatim>\<open>a.txt\<close> with four bytes; the destination already holds
  \<^verbatim>\<open>a.txt\<close> with five.
\<close>

definition differing_sizes :: world where
  "differing_sizes =
     \<lparr>source = Some (SDir [(''a.txt'', SFile ''abcd'')]),
      dest = [[] \<mapsto> DDir, [''a.txt''] \<mapsto> DFile ''hello''],
      reports = Map.empty\<rparr>"

text \<open>
  The source holds \<^verbatim>\<open>a.txt\<close>, \<^verbatim>\<open>c.txt\<close> and \<^verbatim>\<open>sub/b.txt\<close>; the destination holds
  \<^verbatim>\<open>a.txt\<close> with other bytes of the same length and \<^verbatim>\<open>c.txt\<close> with fewer bytes.
\<close>

definition partly_synced :: world where
  "partly_synced =
     \<lparr>source = Some (SDir [(''a.txt'', SFile ''abcd''), (''sub'', SDir [(''b.txt'', SFile ''0123456789'')]),
                          (''c.txt'', SFile ''xyz'')]),
      dest = [[] \<mapsto> DDir, [''a.txt''] \<mapsto> DFile ''wxyz'', [''c.txt''] \<mapsto> DFile ''x''],
      reports = Map.empty\<rparr>"

text \<open>
  The source holds a directory \<^verbatim>\<open>sub\<close>; the destination holds a regular file at
  \<^verbatim>\<open>sub\<close>.
\<close>

definition blocked_subdir :: world where
  "blocked_subdir =
     \<lparr>source = Some (SDir [(''sub'', SDir [])]),
      dest = [[] \<mapsto> DDir, [''sub''] \<mapsto> DFile ''x''],
      reports = Map.empty\<rparr>"

text \<open>
  The source holds \<^verbatim>\<open>f.txt\<close> and a directory \<^verbatim>\<open>d\<close> with \<^verbatim>\<open>g.txt\<close>; the
  destination holds a regular file at \<^verbatim>\<open>d\<close>.
\<close>

definition blocked_after_copy :: world where
  "blocked_after_copy =
     \<lparr>source = Some (SDir [(''f.txt'', SFile ''x''), (''d'', SDir [(''g.txt'', SFile ''y'')])]),
      dest = [[] \<mapsto> DDir, [''d''] \<mapsto> DFile ''''],
      reports = Map.empty\<rparr>"

text \<open>Nothing at the source path; a regular file at the source path.\<close>

definition missing_source :: world where
  "missing_source = \<lparr>source = None, dest = [[] \<mapsto> DDir], reports = Map.empty\<rparr>"

definition file_source :: world where
  "file_source = \<lparr>source = Some (SFile ''abc''), dest = [[] \<mapsto> DDir], reports = Map.empty\<rparr>"


text \<open>A result without the keys \<^verbatim>\<open>overwritten\<close> and \<^verbatim>\<open>skipped\<close>, with two errors.\<close>

definition two_errors :: results where
  "two_errors = [''new'' \<mapsto> [''n.txt''], ''errors'' \<mapsto> [''a -> x'', ''b -> y'']]"

text \<open>
  A source with two regular files, an empty directory, a dangling link and a link to a
  directory, and an empty destination.
\<close>

definition fresh_copy :: world where
  "fresh_copy =
     \<lparr>source = Some (SDir [(''a.txt'', SFile ''abcd''),
                          (''sub'', SDir [(''b.txt'', SFile ''0123456789''), (''empty'', SDir [])]),
                          (''l'', SLink ''/nowhere'' None None),
                          (''dl'', SDirLink ''/elsewhere'')]),
      dest = empty_dest,
      reports = Map.empty\<rparr>"



section \<open>Properties\<close>

lemmas engine_defs = sync_copy_def src_exists_def src_entries_def init_results_def
  makedirs.simps mkdir_def sync_file_def try_body_def exists_def isdir_def getsize_def
  copy2_def write_file_def symlink_def append_to_def name_false_def get_list_def
  os_path_join_def root_str_def dst_dir_str_def quoted_def
  eexist_def enoent_def enotdir_def eisdir_def eexist2_def enoent2_def enotdir2_def
  named_pipe_def walk.simps Let_def

subsection \<open>One outcome for each file\<close>

declare walk.simps [simp del]

lemma has_keys_init: "has_keys init_results"
  by (simp add: has_keys_def init_results_def)

lemma append_to_Some: "res k = Some l \<Longrightarrow> append_to k x res = Inr (res(k \<mapsto> l @ [x]))"
  by (simp add: append_to_def)

lemma has_keys_upd: "has_keys res \<Longrightarrow> has_keys (res(k \<mapsto> l))"
  by (simp add: has_keys_def)

lemma get_list_upd: "get_list (res(k \<mapsto> l)) k' = (if k' = k then l else get_list res k')"
  by (simp add: get_list_def)

text \<open>The try body either raises or appends to one of the three lists.\<close>
lemma try_body_cases:
  assumes "has_keys res"
  shows "(\<exists>fs' e. try_body src dst r f node fs res = (fs', Inl e)) \<or>
         (\<exists>fs' k. k \<in> {''new'', ''overwritten'', ''skipped''} \<and>
            try_body src dst r f node fs res = (fs', Inr (res(k \<mapsto> get_list res k @ [rel_str (r @ [f])]))))"
  using assms
  by (auto simp: try_body_def Let_def has_keys_def append_to_def get_list_def name_false_def split: sum.splits)

lemma sync_file_cases:
  assumes "has_keys res"
  shows "\<exists>fs' k x. sync_file src dst r f node fs res = (fs', Inr (res(k \<mapsto> get_list res k @ [x]))) \<and> entry_for (r @ [f]) (k, x)"
proof -
  from try_body_cases[OF assms, of src dst r f node fs]
  show ?thesis
  proof
    assume "\<exists>fs' e. try_body src dst r f node fs res = (fs', Inl e)"
    then obtain fs' e where t: "try_body src dst r f node fs res = (fs', Inl e)" by blast
    from assms obtain errs where e: "res ''errors'' = Some errs" by (auto simp: has_keys_def)
    have "sync_file src dst r f node fs res = (fs', Inr (res(''errors'' \<mapsto> get_list res ''errors'' @ [rel_str (r @ [f]) @ '' -> '' @ str_exn e])))"
      using t e by (simp add: sync_file_def append_to_def get_list_def)
    moreover have "entry_for (r @ [f]) (''errors'', rel_str (r @ [f]) @ '' -> '' @ str_exn e)"
      by (simp add: entry_for_def result_keys_def)
    ultimately show ?thesis by blast
  next
    assume "\<exists>fs' k. k \<in> {''new'', ''overwritten'', ''skipped''} \<and>
            try_body src dst r f node fs res = (fs', Inr (res(k \<mapsto> get_list res k @ [rel_str (r @ [f])])))"
    then obtain fs' k where k: "k \<in> {''new'', ''overwritten'', ''skipped''}"
      and t: "try_body src dst r f node fs res = (fs', Inr (res(k \<mapsto> get_list res k @ [rel_str (r @ [f])])))" by blast
    have "sync_file src dst r f node fs res = (fs', Inr (res(k \<mapsto> get_list res k @ [rel_str (r @ [f])])))"
      using t by (simp add: sync_file_def)
    moreover have "entry_for (r @ [f]) (k, rel_str (r @ [f]))"
      using k by (auto simp: entry_for_def result_keys_def)
    ultimately show ?thesis by blast
  qed
qed


lemma tagged_simps [simp]:
  "tagged k [] = []"
  "tagged k ((k', x) # log) = (if k' = k then x # tagged k log else tagged k log)"
  "tagged k (log @ log') = tagged k log @ tagged k log'"
  by (simp_all add: tagged_def)

lemma tagged_partition:
  "\<forall>e \<in> set log. fst e \<in> set result_keys \<Longrightarrow>
   length (tagged ''new'' log) + length (tagged ''overwritten'' log)
     + length (tagged ''skipped'' log) + length (tagged ''errors'' log) = length log"
  by (induction log) (auto simp: result_keys_def)

lemma sync_files_log:
  assumes "has_keys res"
  shows "\<exists>fs' res' log. sync_files src dst r files fs res = (fs', Inr res') \<and> has_keys res' \<and>
           list_all2 (\<lambda>e f. entry_for (r @ [fst f]) e) log files \<and>
           (\<forall>k. get_list res' k = get_list res k @ tagged k log)"
  using assms
proof (induction files arbitrary: fs res)
  case Nil
  then show ?case by simp
next
  case (Cons fn files)
  obtain f node where fn: "fn = (f, node)" by (cases fn)
  from sync_file_cases[OF Cons.prems, of src dst r f node fs]
  obtain fs1 k x where s: "sync_file src dst r f node fs res = (fs1, Inr (res(k \<mapsto> get_list res k @ [x])))"
    and e: "entry_for (r @ [f]) (k, x)" by blast
  let ?res1 = "res(k \<mapsto> get_list res k @ [x])"
  have hk: "has_keys ?res1" using Cons.prems by (rule has_keys_upd)
  from Cons.IH[OF hk, of fs1]
  obtain fs' res' log where r: "sync_files src dst r files fs1 ?res1 = (fs', Inr res')"
    and hk': "has_keys res'"
    and la: "list_all2 (\<lambda>e f. entry_for (r @ [fst f]) e) log files"
    and gl: "\<forall>k'. get_list res' k' = get_list ?res1 k' @ tagged k' log" by blast
  have "sync_files src dst r (fn # files) fs res = (fs', Inr res')"
    using s r by (simp add: fn)
  moreover have "list_all2 (\<lambda>e f. entry_for (r @ [fst f]) e) ((k, x) # log) (fn # files)"
    using la e by (simp add: fn)
  moreover have "\<forall>k'. get_list res' k' = get_list res k' @ tagged k' ((k, x) # log)"
    using gl by (simp add: get_list_upd)
  ultimately show ?case using hk' by blast
qed

lemma walk_files_Cons:
  "walk_files ((r, dirs, files) # todo) = map (\<lambda>f. r @ [fst f]) files @ walk_files todo"
  by (simp add: walk_files_def)

lemma sync_walk_log:
  assumes "has_keys res"
  shows "(\<exists>fs0 fs' r e. sync_walk src dst triples fs res = (fs', Inl e) \<and> r \<in> fst ` set triples \<and>
            makedirs (dst_dir_str dst) fs0 r = (fs', Some e)) \<or>
         (\<exists>fs' res' log. sync_walk src dst triples fs res = (fs', Inr res') \<and> has_keys res' \<and>
            list_all2 (\<lambda>e p. entry_for p e) log (walk_files triples) \<and>
            (\<forall>k. get_list res' k = get_list res k @ tagged k log))"
  using assms
proof (induction triples arbitrary: fs res)
  case Nil
  then show ?case by (simp add: walk_files_def)
next
  case (Cons t todo)
  obtain r dirs files where t: "t = (r, dirs, files)" by (cases t)
  obtain fs1 m where m: "makedirs (dst_dir_str dst) fs r = (fs1, m)" by (cases "makedirs (dst_dir_str dst) fs r")
  show ?case
  proof (cases m)
    case (Some e)
    then have "sync_walk src dst (t # todo) fs res = (fs1, Inl e)" using m by (simp add: t)
    then show ?thesis using m Some t by fastforce
  next
    case None
    from sync_files_log[OF Cons.prems, of src dst r files fs1]
    obtain fs2 res2 log where f: "sync_files src dst r files fs1 res = (fs2, Inr res2)"
      and hk: "has_keys res2"
      and la: "list_all2 (\<lambda>e f. entry_for (r @ [fst f]) e) log files"
      and gl: "\<forall>k. get_list res2 k = get_list res k @ tagged k log" by blast
    have step: "sync_walk src dst (t # todo) fs res = sync_walk src dst todo fs2 res2"
      using m None f by (simp add: t)
    have la': "list_all2 (\<lambda>e p. entry_for p e) log (map (\<lambda>f. r @ [fst f]) files)"
      using la by (simp add: list_all2_map2)
    from Cons.IH[OF hk, of fs2] show ?thesis
    proof
      assume "\<exists>fs0 fs' r e. sync_walk src dst todo fs2 res2 = (fs', Inl e) \<and> r \<in> fst ` set todo \<and>
            makedirs (dst_dir_str dst) fs0 r = (fs', Some e)"
      then obtain fs0 fs' r' e where "sync_walk src dst todo fs2 res2 = (fs', Inl e)"
        "r' \<in> fst ` set todo" "makedirs (dst_dir_str dst) fs0 r' = (fs', Some e)" by blast
      then have "sync_walk src dst (t # todo) fs res = (fs', Inl e) \<and> r' \<in> fst ` set (t # todo) \<and>
            makedirs (dst_dir_str dst) fs0 r' = (fs', Some e)" unfolding step by simp
      then show ?thesis by blast
    next
      assume "\<exists>fs' res' log. sync_walk src dst todo fs2 res2 = (fs', Inr res') \<and> has_keys res' \<and>
            list_all2 (\<lambda>e p. entry_for p e) log (walk_files todo) \<and>
            (\<forall>k. get_list res' k = get_list res2 k @ tagged k log)"
      then obtain fs' res' log' where w: "sync_walk src dst todo fs2 res2 = (fs', Inr res')"
        and hk': "has_keys res'"
        and la2: "list_all2 (\<lambda>e p. entry_for p e) log' (walk_files todo)"
        and gl2: "\<forall>k. get_list res' k = get_list res2 k @ tagged k log'" by blast
      have "list_all2 (\<lambda>e p. entry_for p e) (log @ log') (walk_files (t # todo))"
        unfolding t walk_files_Cons using la' la2 by (rule list_all2_appendI)
      moreover have "\<forall>k. get_list res' k = get_list res k @ tagged k (log @ log')"
        using gl gl2 by simp
      ultimately show ?thesis unfolding step using w hk' by blast
    qed
  qed
qed

lemma entries_keys:
  "list_all2 (\<lambda>e p. entry_for p e) log ps \<Longrightarrow> \<forall>e \<in> set log. fst e \<in> set result_keys"
  by (induction rule: list_all2_induct) (auto simp: entry_for_def)

lemma sync_files_total:
  "has_keys res \<Longrightarrow> \<exists>fs' res'. sync_files src dst r files fs res = (fs', Inr res')"
  using sync_files_log[of res src dst r files fs] by blast

lemma sync_copy_raises_from:
  assumes "sync_copy src dst w = (w', Inl e)" "src_exists w" "src_entries w \<noteq> None"
  shows "\<exists>es fs r. src_entries w = Some es \<and> r \<in> fst ` set (walk [] es) \<and>
           makedirs (dst_dir_str dst) fs r = (dest w', Some e)"
proof -
  from assms(3) obtain es where es: "src_entries w = Some es" by blast
  obtain fs1 out where sw: "sync_walk src dst (walk [] es) (dest w) init_results = (fs1, out)"
    by (cases "sync_walk src dst (walk [] es) (dest w) init_results")
  from assms(1,2) es sw have out: "out = Inl e" and w': "w' = w\<lparr>dest := fs1\<rparr>"
    by (auto simp: sync_copy_def)
  from sync_walk_log[OF has_keys_init, of src dst "walk [] es" "dest w"] sw out
  obtain fs0 r where "r \<in> fst ` set (walk [] es)" "makedirs (dst_dir_str dst) fs0 r = (fs1, Some e)"
    by auto
  then show ?thesis using es w' by auto
qed

subsection \<open>Files of differing size\<close>

text \<open>
  Whenever the destination path exists and the two sizes differ or one of them is not
  to be had, the loop body leaves the store as it was and records the \<^verbatim>\<open>NameError\<close>
  under \<open>errors\<close>: \<^verbatim>\<open>shutil.copy2\<close> is never reached on these branches.
\<close>

lemma overwrite_branch_records_error:
  assumes "exists fs (r @ [f])"
    and "getsize_src node = None \<or> getsize fs (r @ [f]) = None
         \<or> getsize_src node \<noteq> getsize fs (r @ [f])"
    and "res ''errors'' = Some errs"
  shows "sync_file src dst r f node fs res
           = (fs, Inr (res(''errors'' \<mapsto> errs @ [rel_str (r @ [f]) @ '' -> name '' @ quoted ''false''
                                                     @ '' is not defined''])))"
  using assms by (auto simp: sync_file_def try_body_def Let_def name_false_def append_to_def)

text \<open>
  C1. The claim: a file whose destination copy exists with a different size is copied
  over the destination and recorded under \<open>overwritten\<close>. The code does neither: at
  \<open>differing_sizes\<close> the run leaves the five old bytes in place, records nothing under
  \<open>overwritten\<close>, and records the file under \<open>errors\<close> with the message of the
  \<^verbatim>\<open>NameError\<close> for \<^verbatim>\<open>false\<close>.
\<close>

theorem sync_copy_differing_sizes_records_error:
  "(case sync_copy ''/s'' ''/d'' differing_sizes of
      (w', Inr res) \<Rightarrow>
        get_list res ''overwritten'' = [] \<and>
        get_list res ''errors'' = [''a.txt -> name '' @ quoted ''false'' @ '' is not defined''] \<and>
        dest w' [''a.txt''] = Some (DFile ''hello'')
    | (w', Inl e) \<Rightarrow> False)"
  by (simp add: differing_sizes_def engine_defs)

subsection \<open>The partition of the file entries\<close>

text \<open>
  C2. When \<^verbatim>\<open>sync_copy\<close> returns a result, there is a log with one entry for each
  file entry of the walk, in the walk's order, each entry being an outcome of its file
  under exactly one key; each of the four lists holds exactly the log's strings
  recorded under its key. So no file is recorded twice or dropped, and the four
  lengths add up to the number of file entries met.
\<close>

theorem sync_copy_partition:
  assumes "sync_copy src dst w = (w', Inr res)"
  shows "\<exists>es log. src_entries w = Some es \<and>
           list_all2 (\<lambda>e p. entry_for p e) log (walk_files (walk [] es)) \<and>
           (\<forall>k \<in> set result_keys. get_list res k = tagged k log) \<and>
           length (get_list res ''new'') + length (get_list res ''overwritten'')
             + length (get_list res ''skipped'') + length (get_list res ''errors'')
           = length (walk_files (walk [] es))"
proof -
  from assms obtain es where es: "src_entries w = Some es"
    by (auto simp: sync_copy_def split: if_splits option.splits)
  obtain fs out where sw: "sync_walk src dst (walk [] es) (dest w) init_results = (fs, out)"
    by (cases "sync_walk src dst (walk [] es) (dest w) init_results")
  have out: "out = Inr res" using assms es sw by (auto simp: sync_copy_def split: if_splits)
  from sync_walk_log[OF has_keys_init, of src dst "walk [] es" "dest w"] sw out
  obtain log where la: "list_all2 (\<lambda>e p. entry_for p e) log (walk_files (walk [] es))"
    and gl: "\<forall>k. get_list res k = get_list init_results k @ tagged k log" by auto
  have g: "\<forall>k \<in> set result_keys. get_list res k = tagged k log"
    using gl by (auto simp: result_keys_def get_list_def init_results_def)
  have keys: "\<forall>e \<in> set log. fst e \<in> set result_keys"
    using la by (rule entries_keys)
  have len: "length log = length (walk_files (walk [] es))"
    using la by (rule list_all2_lengthD)
  have "length (get_list res ''new'') + length (get_list res ''overwritten'')
             + length (get_list res ''skipped'') + length (get_list res ''errors'') = length log"
    using tagged_partition[OF keys] g by (simp add: result_keys_def)
  then show ?thesis using es la g len by auto
qed

theorem sync_copy_partition_witness:
  "\<exists>w' res. sync_copy ''/s'' ''/d'' partly_synced = (w', Inr res) \<and>
     get_list res ''new'' = [''sub/b.txt''] \<and> get_list res ''skipped'' = [''a.txt''] \<and>
     (\<exists>es log. src_entries partly_synced = Some es \<and>
           list_all2 (\<lambda>e p. entry_for p e) log (walk_files (walk [] es)) \<and>
           (\<forall>k \<in> set result_keys. get_list res k = tagged k log) \<and>
           length (get_list res ''new'') + length (get_list res ''overwritten'')
             + length (get_list res ''skipped'') + length (get_list res ''errors'')
           = length (walk_files (walk [] es)))"
proof -
  have "\<exists>w' res. sync_copy ''/s'' ''/d'' partly_synced = (w', Inr res) \<and>
     get_list res ''new'' = [''sub/b.txt''] \<and> get_list res ''skipped'' = [''a.txt'']"
    by (simp add: partly_synced_def engine_defs)
  then obtain w' res where r: "sync_copy ''/s'' ''/d'' partly_synced = (w', Inr res)"
    and l: "get_list res ''new'' = [''sub/b.txt'']" "get_list res ''skipped'' = [''a.txt'']"
    by blast
  from sync_copy_partition[OF r] r l show ?thesis by blast
qed

subsection \<open>Exceptions of a single file\<close>

text \<open>
  C3 as stated fails: with the source present and a directory, \<^verbatim>\<open>sync_copy\<close> raises
  when a mirrored directory cannot be created. At \<open>blocked_after_copy\<close> it copies
  \<^verbatim>\<open>f.txt\<close>, then \<^verbatim>\<open>os.makedirs\<close> raises \<^verbatim>\<open>FileExistsError\<close> for \<^verbatim>\<open>/d/d\<close> outside the
  \<^verbatim>\<open>try\<close>, and the walk ends there with \<^verbatim>\<open>d/g.txt\<close> never visited.
\<close>

theorem sync_copy_raises_on_blocked_directory:
  "src_exists blocked_after_copy \<and> src_entries blocked_after_copy \<noteq> None \<and>
   (case sync_copy ''/s'' ''/d'' blocked_after_copy of
      (w', Inl e) \<Rightarrow> e = eexist ''/d/d'' \<and> dest w' [''f.txt''] = Some (DFile ''x'') \<and> dest w' [''d'', ''g.txt''] = None
    | (w', Inr res) \<Rightarrow> False)"
  by (simp add: blocked_after_copy_def engine_defs)

text \<open>
  C3, amended. With the four keys in the result, the loop over the files of a directory
  never raises; when the \<^verbatim>\<open>try\<close> body of a file raises \<open>e\<close>, the loop goes on with
  the next file from the store the body reached, with the file's relative path, an
  arrow and \<open>str e\<close> appended to \<open>errors\<close>; and an exception that \<^verbatim>\<open>sync_copy\<close>
  raises past its two preconditions is one that \<^verbatim>\<open>os.makedirs\<close> raised for a mirrored
  directory.
\<close>

theorem per_file_exceptions_recorded:
  assumes "has_keys res"
  shows "(\<exists>fs' res'. sync_files src dst r files fs res = (fs', Inr res')) \<and>
         (\<forall>fs1 e. try_body src dst r f node fs res = (fs1, Inl e) \<longrightarrow>
            sync_files src dst r ((f, node) # rest) fs res
              = sync_files src dst r rest fs1
                  (res(''errors'' \<mapsto> get_list res ''errors'' @ [rel_str (r @ [f]) @ '' -> '' @ str_exn e]))) \<and>
         (\<forall>w' e. src_exists w \<and> src_entries w \<noteq> None \<and> sync_copy src dst w = (w', Inl e) \<longrightarrow>
            (\<exists>fs p. makedirs (dst_dir_str dst) fs p = (dest w', Some e)))"
proof (intro conjI allI impI)
  show "\<exists>fs' res'. sync_files src dst r files fs res = (fs', Inr res')"
    using assms by (rule sync_files_total)
next
  fix fs1 e
  assume t: "try_body src dst r f node fs res = (fs1, Inl e)"
  from assms obtain errs where "res ''errors'' = Some errs" by (auto simp: has_keys_def)
  then show "sync_files src dst r ((f, node) # rest) fs res
              = sync_files src dst r rest fs1
                  (res(''errors'' \<mapsto> get_list res ''errors'' @ [rel_str (r @ [f]) @ '' -> '' @ str_exn e]))"
    using t by (simp add: sync_file_def append_to_def get_list_def)
next
  fix w' e
  assume "src_exists w \<and> src_entries w \<noteq> None \<and> sync_copy src dst w = (w', Inl e)"
  then show "\<exists>fs p. makedirs (dst_dir_str dst) fs p = (dest w', Some e)"
    using sync_copy_raises_from[of src dst w w' e] by blast
qed

theorem per_file_exceptions_recorded_witness:
  "has_keys init_results \<and>
   try_body ''/s'' ''/d'' [] ''a.txt'' (SFile ''abcd'') (dest differing_sizes) init_results
     = (dest differing_sizes, Inl (NameError (''name '' @ quoted ''false'' @ '' is not defined''))) \<and>
   sync_files ''/s'' ''/d'' [] [(''a.txt'', SFile ''abcd''), (''b.txt'', SFile ''12'')] (dest differing_sizes) init_results
     = sync_files ''/s'' ''/d'' [] [(''b.txt'', SFile ''12'')] (dest differing_sizes)
         (init_results(''errors'' \<mapsto> get_list init_results ''errors''
            @ [rel_str ([] @ [''a.txt'']) @ '' -> ''
               @ str_exn (NameError (''name '' @ quoted ''false'' @ '' is not defined''))])) \<and>
   (\<exists>fs' res'. sync_files ''/s'' ''/d'' [] [(''a.txt'', SFile ''abcd''), (''b.txt'', SFile ''12'')] (dest differing_sizes) init_results = (fs', Inr res')) \<and>
   (\<exists>w' fs p. sync_copy ''/s'' ''/d'' blocked_after_copy = (w', Inl (eexist ''/d/d'')) \<and>
       makedirs (dst_dir_str ''/d'') fs p = (dest w', Some (eexist ''/d/d'')))"
proof -
  have t: "try_body ''/s'' ''/d'' [] ''a.txt'' (SFile ''abcd'') (dest differing_sizes) init_results
     = (dest differing_sizes, Inl (NameError (''name '' @ quoted ''false'' @ '' is not defined'')))"
    by (simp add: differing_sizes_def try_body_def exists_def getsize_def name_false_def init_results_def Let_def)
  have c: "src_exists blocked_after_copy \<and> src_entries blocked_after_copy \<noteq> None"
    by (simp add: blocked_after_copy_def src_exists_def src_entries_def)
  have "\<exists>w'. sync_copy ''/s'' ''/d'' blocked_after_copy = (w', Inl (eexist ''/d/d''))"
    by (simp add: blocked_after_copy_def engine_defs)
  then obtain w' where d: "sync_copy ''/s'' ''/d'' blocked_after_copy = (w', Inl (eexist ''/d/d''))" ..
  note th = per_file_exceptions_recorded[OF has_keys_init, of "''/s''" "''/d''" "[]" "[(''a.txt'', SFile ''abcd''), (''b.txt'', SFile ''12'')]"
      "dest differing_sizes" "''a.txt''" "SFile ''abcd''" "[(''b.txt'', SFile ''12'')]" blocked_after_copy]
  from th t c d has_keys_init show ?thesis by blast
qed

subsection \<open>When the engine fails\<close>

text \<open>
  C9 as stated fails in its last part: the two preconditions are not the only ways for
  the engine to fail. At \<open>blocked_subdir\<close> the source exists and is a directory, and
  \<^verbatim>\<open>sync_copy\<close> raises \<^verbatim>\<open>FileExistsError\<close>.
\<close>

theorem sync_copy_fails_beyond_preconditions:
  "src_exists blocked_subdir \<and> src_entries blocked_subdir \<noteq> None \<and>
   snd (sync_copy ''/s'' ''/d'' blocked_subdir) = Inl (eexist ''/d/sub'')"
  by (simp add: blocked_subdir_def engine_defs)

text \<open>
  C9, amended. \<^verbatim>\<open>sync_copy\<close> raises \<^verbatim>\<open>FileNotFoundError\<close> when the source does not
  exist and \<^verbatim>\<open>NotADirectoryError\<close> when it exists and is not a directory; any other
  exception it raises was raised by \<^verbatim>\<open>os.makedirs\<close> for a directory of the walk.
\<close>

theorem sync_copy_failure_conditions:
  "(\<not> src_exists w \<longrightarrow>
      sync_copy src dst w = (w, Inl (FileNotFoundError (''Source not found: '' @ src)))) \<and>
   (src_exists w \<and> src_entries w = None \<longrightarrow>
      sync_copy src dst w = (w, Inl (NotADirectoryError (''Source is not a directory: '' @ src)))) \<and>
   (\<forall>w' e. src_exists w \<and> src_entries w \<noteq> None \<and> sync_copy src dst w = (w', Inl e) \<longrightarrow>
      (\<exists>es fs r. src_entries w = Some es \<and> r \<in> fst ` set (walk [] es) \<and>
         makedirs (dst_dir_str dst) fs r = (dest w', Some e)))"
proof (intro conjI allI impI)
  assume "\<not> src_exists w"
  then show "sync_copy src dst w = (w, Inl (FileNotFoundError (''Source not found: '' @ src)))"
    by (simp add: sync_copy_def)
next
  assume "src_exists w \<and> src_entries w = None"
  then show "sync_copy src dst w = (w, Inl (NotADirectoryError (''Source is not a directory: '' @ src)))"
    by (simp add: sync_copy_def)
next
  fix w' e
  assume "src_exists w \<and> src_entries w \<noteq> None \<and> sync_copy src dst w = (w', Inl e)"
  then show "\<exists>es fs r. src_entries w = Some es \<and> r \<in> fst ` set (walk [] es) \<and>
         makedirs (dst_dir_str dst) fs r = (dest w', Some e)"
    using sync_copy_raises_from[of src dst w w' e] by blast
qed


theorem sync_copy_failure_conditions_witness:
  "sync_copy ''/s'' ''/d'' missing_source
     = (missing_source, Inl (FileNotFoundError (''Source not found: '' @ ''/s''))) \<and>
   sync_copy ''/s'' ''/d'' file_source
     = (file_source, Inl (NotADirectoryError (''Source is not a directory: '' @ ''/s''))) \<and>
   (\<exists>w' es fs r. sync_copy ''/s'' ''/d'' blocked_subdir = (w', Inl (eexist ''/d/sub'')) \<and>
      src_entries blocked_subdir = Some es \<and> r \<in> fst ` set (walk [] es) \<and>
      makedirs (dst_dir_str ''/d'') fs r = (dest w', Some (eexist ''/d/sub'')))"
proof -
  have a: "\<not> src_exists missing_source" by (simp add: missing_source_def src_exists_def)
  have b: "src_exists file_source \<and> src_entries file_source = None"
    by (simp add: file_source_def src_exists_def src_entries_def)
  have c: "src_exists blocked_subdir \<and> src_entries blocked_subdir \<noteq> None"
    by (simp add: blocked_subdir_def src_exists_def src_entries_def)
  have "\<exists>w'. sync_copy ''/s'' ''/d'' blocked_subdir = (w', Inl (eexist ''/d/sub''))"
    by (simp add: blocked_subdir_def engine_defs)
  then obtain w' where d: "sync_copy ''/s'' ''/d'' blocked_subdir = (w', Inl (eexist ''/d/sub''))" ..
  from sync_copy_failure_conditions[of missing_source "''/s''" "''/d''"] a
  have 1: "sync_copy ''/s'' ''/d'' missing_source
     = (missing_source, Inl (FileNotFoundError (''Source not found: '' @ ''/s'')))" by blast
  from sync_copy_failure_conditions[of file_source "''/s''" "''/d''"] b
  have 2: "sync_copy ''/s'' ''/d'' file_source
     = (file_source, Inl (NotADirectoryError (''Source is not a directory: '' @ ''/s'')))" by blast
  from sync_copy_failure_conditions[of blocked_subdir "''/s''" "''/d''"] c d
  have 3: "\<exists>es fs r. src_entries blocked_subdir = Some es \<and> r \<in> fst ` set (walk [] es) \<and>
      makedirs (dst_dir_str ''/d'') fs r = (dest w', Some (eexist ''/d/sub''))" by blast
  from 1 2 3 d show ?thesis by blast
qed

subsection \<open>The report\<close>


lemma write_file_read:
  "write_file name st p c = Inr st' \<Longrightarrow> read_file st' p = Some c"
  by (auto simp: write_file_def read_file_def split: if_splits option.splits dnode.splits target.splits)

lemma report_writes_shape:
  "report_writes date res =
     [''Report date (America/Chicago): '' @ date @ nl,
      ''Summary:'' @ nl,
      ''  New files:         '' @ str_nat (length (get_list res ''new'')) @ nl,
      ''  Overwritten files: '' @ str_nat (length (get_list res ''overwritten'')) @ nl,
      ''  Skipped files:     '' @ str_nat (length (get_list res ''skipped'')) @ nl,
      ''  Errors:            '' @ str_nat (length (get_list res ''errors'')) @ nl,
      nl]
     @ (if get_list res ''errors'' = [] then []
        else (''Errors:'' @ nl) # map (\<lambda>e. ''  '' @ e @ nl) (get_list res ''errors'') @ [nl])
     @ [''End of report'' @ nl]"
  by (simp add: report_writes_def Let_def)

lemma errors_header_present:
  "((''Errors:'' @ nl) \<in> set (report_writes date res)) = (get_list res ''errors'' \<noteq> [])"
  by (auto simp: report_writes_shape nl_def)

lemma digit_val: "k < 10 \<Longrightarrow> of_char (''0123456789'' ! k) - 48 = (k::nat)"
proof -
  assume "k < 10"
  then have "k \<in> set [0..<10]" by simp
  then have "k \<in> {0, Suc 0, Suc (Suc 0), Suc (Suc (Suc 0)), Suc (Suc (Suc (Suc 0))),
      Suc (Suc (Suc (Suc (Suc 0)))), Suc (Suc (Suc (Suc (Suc (Suc 0))))),
      Suc (Suc (Suc (Suc (Suc (Suc (Suc 0)))))), Suc (Suc (Suc (Suc (Suc (Suc (Suc (Suc 0))))))),
      Suc (Suc (Suc (Suc (Suc (Suc (Suc (Suc (Suc 0))))))))}"
    by (simp add: upt_rec)
  then show ?thesis by (elim insertE emptyE) simp_all
qed

lemma nat_of_str_str_nat: "nat_of_str (str_nat n) = n"
proof (induction n rule: str_nat.induct)
  case (1 n)
  show ?case
  proof (cases "n < 10")
    case True
    then show ?thesis by (simp add: str_nat.simps[of n] nat_of_str_def digit_val)
  next
    case False
    then have "nat_of_str (str_nat (n div 10)) = n div 10" using 1 by simp
    then show ?thesis using False
      by (simp add: str_nat.simps[of n] nat_of_str_def digit_val)
  qed
qed

lemma get_list_with_defaults:
  "k \<in> set result_keys \<Longrightarrow> get_list (with_defaults res) k = get_list res k"
  by (simp add: with_defaults_def get_list_def)

lemma report_writes_with_defaults:
  "report_writes date (with_defaults res) = report_writes date res"
  by (simp add: report_writes_shape get_list_with_defaults result_keys_def)

lemma write_report_same_text:
  "report_writes date res = report_writes date res' \<Longrightarrow>
   write_report date res st d f = write_report date res' st d f"
  by (simp add: write_report_def Let_def split: prod.splits option.splits)

lemma write_report_success_independent:
  "(\<exists>st' p. write_report date res st d f = (st', Inr p)) =
   (\<exists>st' p. write_report date res' st d f = (st', Inr p))"
  by (auto simp: write_report_def write_file_def Let_def split: prod.splits option.splits sum.splits if_splits dnode.splits target.splits)

lemma makedirs_root:
  "makedirs nm st [] =
     (case mkdir (nm []) st [] of
        Inr st2 \<Rightarrow> (st2, None)
      | Inl e \<Rightarrow> (st, if isdir st [] then None else Some e))"
  by (simp add: makedirs.simps[of nm st "[]"])

lemma makedirs_root_dir: "st [] = Some DDir \<Longrightarrow> makedirs nm st [] = (st, None)"
  by (simp add: makedirs_root mkdir_def isdir_def)

lemma write_report_no_KeyError:
  "\<forall>m. snd (write_report date res st d f) \<noteq> Inl (KeyError m)"
  by (auto simp: write_report_def makedirs_root mkdir_def write_file_def Let_def
        eexist_def enoent_def enotdir_def eisdir_def
      split: prod.splits option.splits sum.splits if_splits dnode.splits target.splits)

lemma write_report_in_directory:
  "st [] = Some DDir \<Longrightarrow> st [report_name date f] = None \<Longrightarrow>
   \<exists>st'. write_report date res st d f = (st', Inr (os_path_join d (report_name date f))) \<and>
         read_file st' [report_name date f] = Some (concat (report_writes date res))"
  by (simp add: write_report_def makedirs_root_dir write_file_def isdir_def read_file_def)


text \<open>
  C7. When \<^verbatim>\<open>write_report\<close> returns, the report file holds the strings written, in
  order: the date line, \<^verbatim>\<open>Summary:\<close>, the four count lines, each showing the length
  of its list as a decimal numeral (which reads back as that length), and an empty
  line; then the \<^verbatim>\<open>Errors:\<close> section, present exactly when the error list is not
  empty and listing every error string verbatim, one to a line after two spaces; and
  last the line \<^verbatim>\<open>End of report\<close>.
\<close>

theorem write_report_content:
  assumes "write_report date res st report_directory file_name = (st', Inr report_path)"
  shows "read_file st' [report_name date file_name] = Some (concat (report_writes date res)) \<and>
         take 7 (report_writes date res) =
           [''Report date (America/Chicago): '' @ date @ nl,
            ''Summary:'' @ nl,
            ''  New files:         '' @ str_nat (length (get_list res ''new'')) @ nl,
            ''  Overwritten files: '' @ str_nat (length (get_list res ''overwritten'')) @ nl,
            ''  Skipped files:     '' @ str_nat (length (get_list res ''skipped'')) @ nl,
            ''  Errors:            '' @ str_nat (length (get_list res ''errors'')) @ nl,
            nl] \<and>
         ((''Errors:'' @ nl) \<in> set (report_writes date res)) = (get_list res ''errors'' \<noteq> []) \<and>
         drop 7 (report_writes date res) =
           (if get_list res ''errors'' = [] then []
            else (''Errors:'' @ nl) # map (\<lambda>e. ''  '' @ e @ nl) (get_list res ''errors'') @ [nl])
           @ [''End of report'' @ nl] \<and>
         last (report_writes date res) = ''End of report'' @ nl \<and>
         (\<forall>n. nat_of_str (str_nat n) = n)"
proof -
  from assms obtain st1 where
    "write_file (os_path_join report_directory (report_name date file_name)) st1
       [report_name date file_name] (concat (report_writes date res)) = Inr st'"
    by (auto simp: write_report_def Let_def split: prod.splits option.splits sum.splits)
  then have "read_file st' [report_name date file_name] = Some (concat (report_writes date res))"
    by (rule write_file_read)
  moreover have "take 7 (report_writes date res) =
           [''Report date (America/Chicago): '' @ date @ nl,
            ''Summary:'' @ nl,
            ''  New files:         '' @ str_nat (length (get_list res ''new'')) @ nl,
            ''  Overwritten files: '' @ str_nat (length (get_list res ''overwritten'')) @ nl,
            ''  Skipped files:     '' @ str_nat (length (get_list res ''skipped'')) @ nl,
            ''  Errors:            '' @ str_nat (length (get_list res ''errors'')) @ nl,
            nl]"
    by (simp add: report_writes_shape)
  moreover have "drop 7 (report_writes date res) =
           (if get_list res ''errors'' = [] then []
            else (''Errors:'' @ nl) # map (\<lambda>e. ''  '' @ e @ nl) (get_list res ''errors'') @ [nl])
           @ [''End of report'' @ nl]"
    by (simp add: report_writes_shape)
  moreover have "last (report_writes date res) = ''End of report'' @ nl"
    by (simp add: report_writes_shape)
  ultimately show ?thesis using errors_header_present nat_of_str_str_nat by blast
qed

theorem write_report_content_witness:
  "\<exists>st'. write_report ''2026-11-04'' two_errors [[] \<mapsto> DDir] ''/r'' ''example''
            = (st', Inr ''/r/2026-11-04_example.txt'') \<and>
     read_file st' [report_name ''2026-11-04'' ''example''] = Some (concat (report_writes ''2026-11-04'' two_errors)) \<and>
     take 7 (report_writes ''2026-11-04'' two_errors) =
           [''Report date (America/Chicago): 2026-11-04'' @ nl,
            ''Summary:'' @ nl,
            ''  New files:         1'' @ nl,
            ''  Overwritten files: 0'' @ nl,
            ''  Skipped files:     0'' @ nl,
            ''  Errors:            2'' @ nl,
            nl] \<and>
     drop 7 (report_writes ''2026-11-04'' two_errors) =
           [''Errors:'' @ nl, ''  a -> x'' @ nl, ''  b -> y'' @ nl, nl, ''End of report'' @ nl]"
proof -
  have "\<exists>st'. write_report ''2026-11-04'' two_errors [[] \<mapsto> DDir] ''/r'' ''example''
            = (st', Inr ''/r/2026-11-04_example.txt'')"
    by (simp add: write_report_def makedirs_root_dir write_file_def isdir_def report_name_def os_path_join_def)
  then obtain st' where w: "write_report ''2026-11-04'' two_errors [[] \<mapsto> DDir] ''/r'' ''example''
            = (st', Inr ''/r/2026-11-04_example.txt'')" ..
  have g: "get_list two_errors ''new'' = [''n.txt'']" "get_list two_errors ''overwritten'' = []"
    "get_list two_errors ''skipped'' = []" "get_list two_errors ''errors'' = [''a -> x'', ''b -> y'']"
    by (simp_all add: two_errors_def get_list_def)
  have n: "str_nat 0 = ''0''" "str_nat (Suc 0) = ''1''" "str_nat (Suc (Suc 0)) = ''2''"
    by (simp_all add: str_nat.simps)
  from write_report_content[OF w] w show ?thesis by (simp add: g n)
qed

text \<open>
  C10. \<^verbatim>\<open>write_report\<close> reads the four lists with \<^verbatim>\<open>results.get(key, [])\<close>: it does on
  any dictionary exactly what it does on that dictionary with each missing list filled
  in as the empty list, it returns normally exactly when it does for the complete
  result, it never raises \<^verbatim>\<open>KeyError\<close>, and in an existing report directory with no
  entry under the report's name it writes the report.
\<close>

theorem write_report_partial_results:
  "has_keys (with_defaults res) \<and>
   (\<forall>k. with_defaults res k = (if res k = None \<and> k \<in> set result_keys then Some [] else res k)) \<and>
   write_report date res st report_directory file_name
     = write_report date (with_defaults res) st report_directory file_name \<and>
   (\<exists>st' p. write_report date res st report_directory file_name = (st', Inr p))
     = (\<exists>st' p. write_report date init_results st report_directory file_name = (st', Inr p)) \<and>
   (\<forall>m. snd (write_report date res st report_directory file_name) \<noteq> Inl (KeyError m)) \<and>
   (st [] = Some DDir \<and> st [report_name date file_name] = None \<longrightarrow>
      (\<exists>st'. write_report date res st report_directory file_name
               = (st', Inr (os_path_join report_directory (report_name date file_name))) \<and>
             read_file st' [report_name date file_name] = Some (concat (report_writes date res))))"
proof (intro conjI)
  show "\<forall>m. snd (write_report date res st report_directory file_name) \<noteq> Inl (KeyError m)"
    by (rule write_report_no_KeyError)
  show "st [] = Some DDir \<and> st [report_name date file_name] = None \<longrightarrow>
      (\<exists>st'. write_report date res st report_directory file_name
               = (st', Inr (os_path_join report_directory (report_name date file_name))) \<and>
             read_file st' [report_name date file_name] = Some (concat (report_writes date res)))"
    by (simp add: write_report_in_directory)
  show "has_keys (with_defaults res)" by (simp add: has_keys_def with_defaults_def result_keys_def)
  show "\<forall>k. with_defaults res k = (if res k = None \<and> k \<in> set result_keys then Some [] else res k)"
    by (auto simp: with_defaults_def get_list_def)
  show "write_report date res st report_directory file_name
     = write_report date (with_defaults res) st report_directory file_name"
    by (rule write_report_same_text) (simp add: report_writes_with_defaults)
  show "(\<exists>st' p. write_report date res st report_directory file_name = (st', Inr p))
     = (\<exists>st' p. write_report date init_results st report_directory file_name = (st', Inr p))"
    by (rule write_report_success_independent)
qed

theorem write_report_partial_results_witness:
  "\<exists>st'. write_report ''2026-11-04'' Map.empty [[] \<mapsto> DDir] ''/r'' ''example''
            = (st', Inr ''/r/2026-11-04_example.txt'') \<and>
     read_file st' [''2026-11-04_example.txt''] =
       Some (''Report date (America/Chicago): 2026-11-04'' @ nl @ ''Summary:'' @ nl
             @ ''  New files:         0'' @ nl @ ''  Overwritten files: 0'' @ nl
             @ ''  Skipped files:     0'' @ nl @ ''  Errors:            0'' @ nl @ nl
             @ ''End of report'' @ nl)"
proof -
  have h: "[[] \<mapsto> DDir] [] = Some DDir \<and> [[] \<mapsto> DDir] [report_name ''2026-11-04'' ''example''] = None"
    by (simp add: report_name_def)
  have n: "str_nat 0 = ''0''" by (simp add: str_nat.simps)
  have r: "concat (report_writes ''2026-11-04'' Map.empty) =
      ''Report date (America/Chicago): 2026-11-04'' @ nl @ ''Summary:'' @ nl
             @ ''  New files:         0'' @ nl @ ''  Overwritten files: 0'' @ nl
             @ ''  Skipped files:     0'' @ nl @ ''  Errors:            0'' @ nl @ nl
             @ ''End of report'' @ nl"
    by (simp add: report_writes_shape get_list_def n)
  from write_report_partial_results[of Map.empty "''2026-11-04''" "[[] \<mapsto> DDir]" "''/r''" "''example''"] h
  have "\<exists>st'. write_report ''2026-11-04'' Map.empty [[] \<mapsto> DDir] ''/r'' ''example''
               = (st', Inr (os_path_join ''/r'' (report_name ''2026-11-04'' ''example''))) \<and>
             read_file st' [report_name ''2026-11-04'' ''example'']
               = Some (concat (report_writes ''2026-11-04'' Map.empty))"
    by blast
  then show ?thesis by (simp add: r report_name_def os_path_join_def)
qed

subsection \<open>The error report of \<^verbatim>\<open>main\<close>\<close>




subsection \<open>Copying into an empty destination\<close>

lemma put_all_simps [simp]:
  "put_all [] fs = fs"
  "put_all (x # xs) fs = put_all xs (fs(fst x \<mapsto> snd x))"
  "put_all (xs @ ys) fs = put_all ys (put_all xs fs)"
  by (simp_all add: put_all_def)









lemma mirror_entries_simps [simp]:
  "mirror_entries [] = []"
  "mirror_entries ((r, dirs, files) # ts)
     = (r, DDir) # map (\<lambda>e. (r @ [fst e], copy_of (snd e))) files @ mirror_entries ts"
  "mirror_entries (xs @ ys) = mirror_entries xs @ mirror_entries ys"
  by (simp_all add: mirror_entries_def)

lemma walk_files_simps [simp]:
  "walk_files [] = []"
  "walk_files ((r, dirs, files) # ts) = map (\<lambda>e. r @ [fst e]) files @ walk_files ts"
  "walk_files (xs @ ys) = walk_files xs @ walk_files ys"
  by (simp_all add: walk_files_def)





lemma mirror_keys_Cons:
  "fst ` set (mirror_entries ((r, dirs, files) # ts))
     = insert r ((\<lambda>e. r @ [fst e]) ` set files \<union> fst ` set (mirror_entries ts))"
  by (simp add: image_Un image_image)

lemma mirror_keys_append:
  "fst ` set (mirror_entries (xs @ ys))
     = fst ` set (mirror_entries xs) \<union> fst ` set (mirror_entries ys)"
  by (simp add: image_Un)

lemma walk_keys:
  "k \<in> fst ` set (mirror_entries (walk r es)) \<longrightarrow> k = r \<or> (\<exists>n q. k = r @ n # q \<and> n \<in> fst ` set es)"
  "k \<in> fst ` set (mirror_entries (walk_subs r es)) \<longrightarrow> (\<exists>n q ch. k = r @ n # q \<and> (n, SDir ch) \<in> set es)"
proof (induction r es and r es rule: walk_walk_subs.induct)
  case (1 r es)
  show ?case
  proof
    assume "k \<in> fst ` set (mirror_entries (walk r es))"
    then have "k \<in> insert r ((\<lambda>e. r @ [fst e]) ` set (filter (\<lambda>e. \<not> is_dir_entry (snd e)) es)
        \<union> fst ` set (mirror_entries (walk_subs r es)))"
      unfolding walk.simps(1) mirror_keys_Cons .
    then consider "k = r" | "k \<in> (\<lambda>e. r @ [fst e]) ` set (filter (\<lambda>e. \<not> is_dir_entry (snd e)) es)"
      | "k \<in> fst ` set (mirror_entries (walk_subs r es))"
      by blast
    then show "k = r \<or> (\<exists>n q. k = r @ n # q \<and> n \<in> fst ` set es)"
    proof cases
      case 1
      then show ?thesis by simp
    next
      case 2
      then obtain e where "e \<in> set es" "k = r @ [fst e]" by auto
      then show ?thesis by (metis image_eqI)
    next
      case 3
      with "1.IH" obtain n q ch where "k = r @ n # q" "(n, SDir ch) \<in> set es" by blast
      then show ?thesis by (metis fst_conv image_eqI)
    qed
  qed
next
  case (2 r)
  then show ?case by (simp add: walk.simps)
next
  case (3 r n ch rest)
  show ?case
  proof
    assume "k \<in> fst ` set (mirror_entries (walk_subs r ((n, SDir ch) # rest)))"
    then have "k \<in> fst ` set (mirror_entries (walk (r @ [n]) ch))
        \<union> fst ` set (mirror_entries (walk_subs r rest))"
      unfolding walk_subs.simps(2) mirror_keys_append .
    then consider "k \<in> fst ` set (mirror_entries (walk (r @ [n]) ch))"
      | "k \<in> fst ` set (mirror_entries (walk_subs r rest))"
      by blast
    then show "\<exists>n' q ch'. k = r @ n' # q \<and> (n', SDir ch') \<in> set ((n, SDir ch) # rest)"
    proof cases
      case 1
      with "3.IH"(1) consider "k = r @ [n]" | n' q where "k = (r @ [n]) @ n' # q" by blast
      then show ?thesis
      proof cases
        case 1
        then show ?thesis by auto
      next
        case 2
        then have "k = r @ n # (n' # q)" by simp
        then show ?thesis by auto
      qed
    next
      case 2
      with "3.IH"(2) show ?thesis by auto
    qed
  qed
next
  case (4 r n c rest)
  then show ?case by (auto simp: walk.simps)
next
  case (5 r n t c d rest)
  then show ?case by (auto simp: walk.simps)
next
  case (6 r n t rest)
  then show ?case by (auto simp: walk.simps)
next
  case (7 r n rest)
  then show ?case by (auto simp: walk.simps)
qed

lemma distinct_names_fst: "distinct_names es \<Longrightarrow> distinct (map fst es)"
  by (induction es rule: distinct_names.induct) auto


lemma walk_distinct:
  "distinct_names es \<longrightarrow> distinct (map fst (mirror_entries (walk r es)))"
  "distinct_names es \<longrightarrow> distinct (map fst (mirror_entries (walk_subs r es)))"
proof (induction r es and r es rule: walk_walk_subs.induct)
  case (1 r es)
  show ?case
  proof
    assume dn: "distinct_names es"
    let ?files = "filter (\<lambda>e. \<not> is_dir_entry (snd e)) es"
    let ?A = "map (\<lambda>e. r @ [fst e]) ?files"
    let ?B = "map fst (mirror_entries (walk_subs r es))"
    have eq: "map fst (mirror_entries (walk r es)) = r # ?A @ ?B"
      by (simp add: walk.simps comp_def)
    have des: "distinct (map fst es)" using dn by (rule distinct_names_fst)
    have dB: "distinct ?B" using "1.IH" dn by simp
    have d1: "distinct (map fst ?files)" using des by (rule distinct_map_filter)
    have i1: "inj_on (\<lambda>n. r @ [n]) (set (map fst ?files))" by (rule inj_onI) simp
    have "distinct (map (\<lambda>n. r @ [n]) (map fst ?files))"
      using d1 i1 by (rule distinct_map[THEN iffD2, OF conjI])
    then have dA: "distinct ?A" by (simp only: map_map comp_def)
    have rA: "r \<notin> set ?A" by auto
    have rB: "r \<notin> set ?B"
    proof
      assume "r \<in> set ?B"
      then have "r \<in> fst ` set (mirror_entries (walk_subs r es))" by simp
      with walk_keys(2)[of r r es] obtain n q where "r = r @ n # q" by blast
      then show False by simp
    qed
    have AB: "set ?A \<inter> set ?B = {}"
    proof (rule ccontr)
      assume "set ?A \<inter> set ?B \<noteq> {}"
      then obtain k where kA: "k \<in> set ?A" and kB: "k \<in> set ?B" by blast
      from kA obtain e where e: "e \<in> set es" "\<not> is_dir_entry (snd e)" "k = r @ [fst e]" by auto
      from kB have "k \<in> fst ` set (mirror_entries (walk_subs r es))" by simp
      with walk_keys(2)[of k r es] obtain n q ch where n: "k = r @ n # q" "(n, SDir ch) \<in> set es"
        by blast
      from e(3) n(1) have "fst e = n" by simp
      then have "(n, snd e) \<in> set es" using e(1) by (metis prod.collapse)
      with des n(2) have "snd e = SDir ch" by (metis eq_key_imp_eq_value)
      then show False using e(2) by simp
    qed
    show "distinct (map fst (mirror_entries (walk r es)))"
      unfolding eq using dA dB rA rB AB by (simp del: set_map)
  qed
next
  case (2 r)
  then show ?case by simp
next
  case (3 r n ch rest)
  show ?case
  proof
    assume dn: "distinct_names ((n, SDir ch) # rest)"
    let ?A = "map fst (mirror_entries (walk (r @ [n]) ch))"
    let ?B = "map fst (mirror_entries (walk_subs r rest))"
    have eq: "map fst (mirror_entries (walk_subs r ((n, SDir ch) # rest))) = ?A @ ?B"
      by simp
    have dA: "distinct ?A" using "3.IH"(1) dn by simp
    have dB: "distinct ?B" using "3.IH"(2) dn by simp
    have nn: "n \<notin> fst ` set rest" using dn by simp
    have AB: "set ?A \<inter> set ?B = {}"
    proof (rule ccontr)
      assume "set ?A \<inter> set ?B \<noteq> {}"
      then obtain k where kA: "k \<in> set ?A" and kB: "k \<in> set ?B" by blast
      from kA have "k \<in> fst ` set (mirror_entries (walk (r @ [n]) ch))" by simp
      with walk_keys(1)[of k "r @ [n]" ch]
      have "k = r @ [n] \<or> (\<exists>m q. k = (r @ [n]) @ m # q)" by blast
      then obtain q where kq: "k = r @ n # q" by auto
      from kB have "k \<in> fst ` set (mirror_entries (walk_subs r rest))" by simp
      with walk_keys(2)[of k r rest] obtain n' q' ch' where n': "k = r @ n' # q'" "(n', SDir ch') \<in> set rest"
        by blast
      from kq n'(1) have "n' = n" by simp
      then have "n \<in> fst ` set rest" using n'(2) by (metis fst_conv image_eqI)
      then show False using nn by simp
    qed
    show "distinct (map fst (mirror_entries (walk_subs r ((n, SDir ch) # rest))))"
      unfolding eq using dA dB AB by (simp del: set_map)
  qed
next
  case (4 r n c rest)
  then show ?case by simp
next
  case (5 r n t c d rest)
  then show ?case by simp
next
  case (6 r n t rest)
  then show ?case by simp
next
  case (7 r n rest)
  then show ?case by simp
qed















subsection \<open>Files of equal size\<close>

text \<open>
  What a step leaves alone: the loop body writes at most at the path of its own file,
  and \<^verbatim>\<open>os.makedirs\<close> writes only where nothing was.
\<close>

lemma copyfile_frame:
  "copyfile follow sname node dname fs p = Inr fs' \<Longrightarrow> q \<noteq> p \<Longrightarrow> fs' q = fs q"
  by (cases node)
     (auto simp: write_file_def symlink_def split: if_splits option.splits dnode.splits target.splits)

lemma try_body_frame:
  assumes "try_body src dst r f node fs res = (fs', out)" and "q \<noteq> r @ [f]"
  shows "fs' q = fs q"
proof (cases "exists fs (r @ [f])")
  case True
  then have "fs' = fs" using assms(1)
    by (auto simp: try_body_def Let_def name_false_def split: if_splits)
  then show ?thesis by simp
next
  case False
  then have nd: "\<not> isdir fs (r @ [f])"
    by (auto simp: exists_def isdir_def split: option.splits dnode.splits target.splits)
  show ?thesis
  proof (cases "copy2 False (os_path_join (root_str src r) f) f node (os_path_join (dst_dir_str dst r) f) fs (r @ [f])")
    case (Inl e)
    then have "fs' = fs" using assms(1) False by (simp add: try_body_def Let_def)
    then show ?thesis by simp
  next
    case (Inr fs1)
    then have "fs' = fs1" using assms(1) False by (simp add: try_body_def Let_def)
    moreover have "fs1 q = fs q" using Inr nd assms(2) by (simp add: copy2_def copyfile_frame)
    ultimately show ?thesis by simp
  qed
qed

lemma sync_file_frame:
  assumes "sync_file src dst r f node fs res = (fs', out)" and "q \<noteq> r @ [f]"
  shows "fs' q = fs q"
proof -
  obtain fs1 o1 where t: "try_body src dst r f node fs res = (fs1, o1)"
    by (cases "try_body src dst r f node fs res")
  then have "fs' = fs1" using assms(1) by (cases o1) (simp_all add: sync_file_def)
  then show ?thesis using try_body_frame[OF t assms(2)] by simp
qed

lemma sync_files_frame:
  assumes "sync_files src dst r files fs res = (fs', out)" and "q \<notin> (\<lambda>e. r @ [fst e]) ` set files"
  shows "fs' q = fs q"
  using assms
proof (induction files arbitrary: fs res)
  case Nil
  then show ?case by simp
next
  case (Cons e files)
  obtain f node where e: "e = (f, node)" by (cases e)
  obtain fs1 o1 where s: "sync_file src dst r f node fs res = (fs1, o1)"
    by (cases "sync_file src dst r f node fs res")
  have q: "q \<noteq> r @ [f]" "q \<notin> (\<lambda>e. r @ [fst e]) ` set files" using Cons.prems(2) by (auto simp: e)
  have 1: "fs1 q = fs q" using s q(1) by (rule sync_file_frame)
  show ?case
  proof (cases o1)
    case (Inl x)
    then have "fs' = fs1" using Cons.prems(1) s by (simp add: e)
    then show ?thesis using 1 by simp
  next
    case (Inr res1)
    then have "sync_files src dst r files fs1 res1 = (fs', out)" using Cons.prems(1) s by (simp add: e)
    then have "fs' q = fs1 q" using q(2) by (rule Cons.IH)
    then show ?thesis using 1 by simp
  qed
qed

lemma mkdir_frame: "mkdir name fs p = Inr fs' \<Longrightarrow> fs q \<noteq> None \<Longrightarrow> fs' q = fs q"
  by (auto simp: mkdir_def split: if_splits)

lemma makedirs_frame:
  "makedirs nm fs p = (fs', out) \<Longrightarrow> fs q \<noteq> None \<Longrightarrow> fs' q = fs q"
proof (induction nm fs p arbitrary: fs' out rule: makedirs.induct)
  case (1 nm fs p)
  show ?case
  proof (cases "p \<noteq> [] \<and> \<not> exists fs (butlast p)")
    case True
    obtain fs0 o0 where r: "makedirs nm fs (butlast p) = (fs0, o0)"
      by (cases "makedirs nm fs (butlast p)")
    have ih: "fs0 q = fs q" using "1.IH"[OF True r "1.prems"(2)] .
    show ?thesis
    proof (cases "o0 = None \<or> (\<exists>e. o0 = Some e \<and> is_FileExistsError e)")
      case True
      then have m: "makedirs nm fs p =
          (case mkdir (nm p) fs0 p of Inr fs2 \<Rightarrow> (fs2, None)
           | Inl e \<Rightarrow> (fs0, if isdir fs0 p then None else Some e))"
        using r \<open>p \<noteq> [] \<and> \<not> exists fs (butlast p)\<close>
        by (auto simp: makedirs.simps[of nm fs p])
      show ?thesis
      proof (cases "mkdir (nm p) fs0 p")
        case (Inl e)
        then have "fs' = fs0" using m "1.prems"(1) by simp
        then show ?thesis using ih by simp
      next
        case (Inr fs2)
        then have "fs' = fs2" using m "1.prems"(1) by simp
        moreover have "fs2 q = fs0 q" using Inr "1.prems"(2) ih by (intro mkdir_frame) auto
        ultimately show ?thesis using ih by simp
      qed
    next
      case False
      then obtain e where "o0 = Some e" "\<not> is_FileExistsError e" by auto
      then have "makedirs nm fs p = (fs0, Some e)"
        using r \<open>p \<noteq> [] \<and> \<not> exists fs (butlast p)\<close>
        by (simp add: makedirs.simps[of nm fs p])
      then have "fs' = fs0" using "1.prems"(1) by simp
      then show ?thesis using ih by simp
    qed
  next
    case False
    then have m: "makedirs nm fs p =
          (case mkdir (nm p) fs p of Inr fs2 \<Rightarrow> (fs2, None)
           | Inl e \<Rightarrow> (fs, if isdir fs p then None else Some e))"
      by (auto simp: makedirs.simps[of nm fs p])
    show ?thesis
    proof (cases "mkdir (nm p) fs p")
      case (Inl e)
      then have "fs' = fs" using m "1.prems"(1) by simp
      then show ?thesis by simp
    next
      case (Inr fs2)
      then have "fs' = fs2" using m "1.prems"(1) by simp
      then show ?thesis using Inr "1.prems"(2) by (simp add: mkdir_frame)
    qed
  qed
qed


lemma sync_walk_frame:
  assumes "sync_walk src dst ts fs res = (fs', out)" and "q \<notin> set (walk_files ts)" and "fs q \<noteq> None"
  shows "fs' q = fs q"
  using assms
proof (induction ts arbitrary: fs res)
  case Nil
  then show ?case by simp
next
  case (Cons t ts)
  obtain r dirs files where t: "t = (r, dirs, files)" by (cases t)
  obtain fs1 m where m: "makedirs (dst_dir_str dst) fs r = (fs1, m)"
    by (cases "makedirs (dst_dir_str dst) fs r")
  have 1: "fs1 q = fs q" using m Cons.prems(3) by (rule makedirs_frame)
  have q: "q \<notin> (\<lambda>e. r @ [fst e]) ` set files" "q \<notin> set (walk_files ts)"
    using Cons.prems(2) by (auto simp: t)
  show ?case
  proof (cases m)
    case (Some e)
    then have "fs' = fs1" using Cons.prems(1) m by (simp add: t)
    then show ?thesis using 1 by simp
  next
    case None
    obtain fs2 o2 where f: "sync_files src dst r files fs1 res = (fs2, o2)"
      by (cases "sync_files src dst r files fs1 res")
    have 2: "fs2 q = fs1 q" using f q(1) by (rule sync_files_frame)
    show ?thesis
    proof (cases o2)
      case (Inl e)
      then have "fs' = fs2" using Cons.prems(1) m None f by (simp add: t)
      then show ?thesis using 1 2 by simp
    next
      case (Inr res2)
      then have "sync_walk src dst ts fs2 res2 = (fs', out)"
        using Cons.prems(1) m None f by (simp add: t)
      moreover have "fs2 q \<noteq> None" using 1 2 Cons.prems(3) by simp
      ultimately have "fs' q = fs2 q" using q(2) by (intro Cons.IH)
      then show ?thesis using 1 2 by simp
    qed
  qed
qed

lemma same_node_same_stat:
  "fs' p = fs p \<Longrightarrow> exists fs' p = exists fs p \<and> getsize fs' p = getsize fs p"
  by (simp add: exists_def getsize_def)

lemma sync_file_equal_sizes:
  assumes "exists fs (r @ [f])"
    and "getsize_src node = Some n"
    and "getsize fs (r @ [f]) = Some n"
    and "res ''skipped'' = Some sk"
  shows "sync_file src dst r f node fs res = (fs, Inr (res(''skipped'' \<mapsto> sk @ [rel_str (r @ [f])])))"
  using assms by (simp add: sync_file_def try_body_def Let_def append_to_def)

lemma sync_files_grow:
  assumes "has_keys res" and "sync_files src dst r files fs res = (fs', Inr res')"
  shows "has_keys res' \<and> set (get_list res k) \<subseteq> set (get_list res' k)"
  using sync_files_log[OF assms(1), of src dst r files fs] assms(2) by auto

lemma sync_walk_grow:
  assumes "has_keys res" and "sync_walk src dst ts fs res = (fs', Inr res')"
  shows "set (get_list res k) \<subseteq> set (get_list res' k)"
  using sync_walk_log[OF assms(1), of src dst ts fs] assms(2) by auto

lemma sync_files_skip:
  assumes "has_keys res"
    and "sync_files src dst r files fs res = (fs', Inr res')"
    and "distinct (map fst files)"
    and "(f, node) \<in> set files"
    and "exists fs (r @ [f])" "getsize_src node = Some n" "getsize fs (r @ [f]) = Some n"
  shows "rel_str (r @ [f]) \<in> set (get_list res' ''skipped'') \<and> fs' (r @ [f]) = fs (r @ [f])"
  using assms
proof (induction files arbitrary: fs res)
  case Nil
  then show ?case by simp
next
  case (Cons e files)
  obtain g nd where e: "e = (g, nd)" by (cases e)
  show ?case
  proof (cases "e = (f, node)")
    case True
    from Cons.prems(1) obtain sk where sk: "res ''skipped'' = Some sk" by (auto simp: has_keys_def)
    let ?res1 = "res(''skipped'' \<mapsto> sk @ [rel_str (r @ [f])])"
    have s: "sync_file src dst r f node fs res = (fs, Inr ?res1)"
      using Cons.prems(5,6,7) sk by (rule sync_file_equal_sizes)
    then have rest: "sync_files src dst r files fs ?res1 = (fs', Inr res')"
      using Cons.prems(2) True by simp
    have hk: "has_keys ?res1" using Cons.prems(1) by (rule has_keys_upd)
    have "f \<notin> fst ` set files" using Cons.prems(3) True by simp
    then have "r @ [f] \<notin> (\<lambda>e. r @ [fst e]) ` set files" by auto
    with rest have "fs' (r @ [f]) = fs (r @ [f])" by (rule sync_files_frame)
    moreover have "rel_str (r @ [f]) \<in> set (get_list ?res1 ''skipped'')" by (simp add: get_list_def)
    then have "rel_str (r @ [f]) \<in> set (get_list res' ''skipped'')"
      using sync_files_grow[OF hk rest, of "''skipped''"] by blast
    ultimately show ?thesis by simp
  next
    case False
    then have mem: "(f, node) \<in> set files" using Cons.prems(4) by simp
    then have "f \<in> fst ` set files" by (metis fst_conv image_eqI)
    then have gf: "g \<noteq> f" using Cons.prems(3) by (auto simp: e)
    obtain fs1 o1 where s: "sync_file src dst r g nd fs res = (fs1, o1)"
      by (cases "sync_file src dst r g nd fs res")
    from sync_file_cases[OF Cons.prems(1), of src dst r g nd fs] s
    obtain k x where o1: "o1 = Inr (res(k \<mapsto> get_list res k @ [x]))" by auto
    let ?res1 = "res(k \<mapsto> get_list res k @ [x])"
    have hk: "has_keys ?res1" using Cons.prems(1) by (rule has_keys_upd)
    have rest: "sync_files src dst r files fs1 ?res1 = (fs', Inr res')"
      using Cons.prems(2) s o1 by (simp add: e)
    have 1: "fs1 (r @ [f]) = fs (r @ [f])" using s gf by (intro sync_file_frame) auto
    have st: "exists fs1 (r @ [f])" "getsize fs1 (r @ [f]) = Some n"
      using same_node_same_stat[of fs1 "r @ [f]" fs, OF 1] Cons.prems(5,7) by simp_all
    have "rel_str (r @ [f]) \<in> set (get_list res' ''skipped'') \<and> fs' (r @ [f]) = fs1 (r @ [f])"
      using hk rest _ mem st(1) Cons.prems(6) st(2)
    proof (rule Cons.IH)
      show "distinct (map fst files)" using Cons.prems(3) by simp
    qed
    then show ?thesis using 1 by simp
  qed
qed

lemma walk_files_keys: "set (walk_files ts) \<subseteq> set (map fst (mirror_entries ts))"
proof (induction ts)
  case Nil
  then show ?case by simp
next
  case (Cons t ts)
  obtain r dirs files where t: "t = (r, dirs, files)" by (cases t)
  have "set (map (\<lambda>e. r @ [fst e]) files)
      \<subseteq> set (map fst (map (\<lambda>e. (r @ [fst e], copy_of (snd e))) files))"
    by (simp add: comp_def)
  then show ?case using Cons.IH by (auto simp: t)
qed

lemma walk_files_distinct:
  "distinct (map fst (mirror_entries ts)) \<Longrightarrow> distinct (walk_files ts)"
proof (induction ts)
  case Nil
  then show ?case by simp
next
  case (Cons t ts)
  obtain r dirs files where t: "t = (r, dirs, files)" by (cases t)
  let ?A = "map (\<lambda>e. r @ [fst e]) files"
  have eq: "map fst (mirror_entries (t # ts)) = r # ?A @ map fst (mirror_entries ts)"
    by (simp add: t comp_def)
  have sub: "set (walk_files ts) \<subseteq> set (map fst (mirror_entries ts))"
    by (rule walk_files_keys)
  have d: "distinct ?A" "distinct (map fst (mirror_entries ts))"
    "set ?A \<inter> set (map fst (mirror_entries ts)) = {}"
    using Cons.prems unfolding eq by (simp_all del: set_map)
  have "set ?A \<inter> set (walk_files ts) = {}" using d(3) sub by blast
  moreover have "distinct (walk_files ts)" using d(2) by (rule Cons.IH)
  ultimately show ?case using d(1) by (simp add: t del: set_map)
qed

lemma sync_walk_skip:
  assumes "has_keys res"
    and "sync_walk src dst ts fs res = (fs', Inr res')"
    and "distinct (walk_files ts)"
    and "(r, dirs, files) \<in> set ts" "(f, node) \<in> set files"
    and "exists fs (r @ [f])" "getsize_src node = Some n" "getsize fs (r @ [f]) = Some n"
  shows "rel_str (r @ [f]) \<in> set (get_list res' ''skipped'') \<and> fs' (r @ [f]) = fs (r @ [f])"
  using assms(1,2,3,4,6,8)
proof (induction ts arbitrary: fs res)
  case Nil
  then show ?case by simp
next
  case (Cons t ts)
  let ?p = "r @ [f]"
  obtain r1 dirs1 files1 where t: "t = (r1, dirs1, files1)" by (cases t)
  have nn: "fs ?p \<noteq> None" using Cons.prems(5) by (auto simp: exists_def split: option.splits)
  obtain fs1 m where m: "makedirs (dst_dir_str dst) fs r1 = (fs1, m)"
    by (cases "makedirs (dst_dir_str dst) fs r1")
  have mn: "m = None" using Cons.prems(2) m by (cases m) (simp_all add: t)
  have 1: "fs1 ?p = fs ?p" using m nn by (rule makedirs_frame)
  obtain fs2 o2 where fl: "sync_files src dst r1 files1 fs1 res = (fs2, o2)"
    by (cases "sync_files src dst r1 files1 fs1 res")
  from sync_files_total[OF Cons.prems(1), of src dst r1 files1 fs1] fl
  obtain res2 where o2: "o2 = Inr res2" by auto
  have hk2: "has_keys res2" using sync_files_grow[OF Cons.prems(1)] fl o2 by blast
  have rest: "sync_walk src dst ts fs2 res2 = (fs', Inr res')"
    using Cons.prems(2) m mn fl o2 by (simp add: t)
  have dd: "distinct (map (\<lambda>e. r1 @ [fst e]) files1)" "distinct (walk_files ts)"
    "set (map (\<lambda>e. r1 @ [fst e]) files1) \<inter> set (walk_files ts) = {}"
    using Cons.prems(3) by (simp_all add: t del: set_map)
  have st1: "exists fs1 ?p" "getsize fs1 ?p = Some n"
    using same_node_same_stat[of fs1 "r @ [f]" fs, OF 1] Cons.prems(5,6) by simp_all
  show ?case
  proof (cases "t = (r, dirs, files)")
    case True
    then have rr: "r1 = r" "files1 = files" by (simp_all add: t)
    have "distinct (map (\<lambda>n. r @ [n]) (map fst files))" using dd(1) by (simp add: rr comp_def)
    then have df: "distinct (map fst files)" by (rule distinct_map[THEN iffD1, THEN conjunct1])
    have a: "rel_str ?p \<in> set (get_list res2 ''skipped'') \<and> fs2 ?p = fs1 ?p"
      using Cons.prems(1) fl[unfolded o2 rr] df assms(5) st1(1) assms(7) st1(2)
      by (rule sync_files_skip)
    have "?p \<in> set (map (\<lambda>e. r1 @ [fst e]) files1)" using assms(5) by (force simp: rr)
    then have "?p \<notin> set (walk_files ts)" using dd(3) by blast
    moreover have "fs2 ?p \<noteq> None" using a 1 nn by simp
    ultimately have "fs' ?p = fs2 ?p" using rest by (intro sync_walk_frame)
    moreover have "rel_str ?p \<in> set (get_list res' ''skipped'')"
      using a sync_walk_grow[OF hk2 rest, of "''skipped''"] by blast
    ultimately show ?thesis using a 1 by simp
  next
    case False
    then have mem: "(r, dirs, files) \<in> set ts" using Cons.prems(4) by simp
    then have "?p \<in> set (walk_files ts)" using assms(5) by (force simp: walk_files_def)
    then have "?p \<notin> set (map (\<lambda>e. r1 @ [fst e]) files1)" using dd(3) by blast
    then have "?p \<notin> (\<lambda>e. r1 @ [fst e]) ` set files1" by simp
    with fl have 2: "fs2 ?p = fs1 ?p" by (rule sync_files_frame)
    have 12: "fs2 ?p = fs ?p" using 1 2 by simp
    have st2: "exists fs2 ?p" "getsize fs2 ?p = Some n"
      using same_node_same_stat[of fs2 "r @ [f]" fs, OF 12] Cons.prems(5,6) by simp_all
    have "rel_str ?p \<in> set (get_list res' ''skipped'') \<and> fs' ?p = fs2 ?p"
      using hk2 rest dd(2) mem st2 by (rule Cons.IH)
    then show ?thesis using 12 by simp
  qed
qed

text \<open>
  C6. When \<^verbatim>\<open>sync_copy\<close> returns a result, a file entry of the walk whose destination
  path exists when the run begins, with the same size as the source file, has its
  relative path in \<open>skipped\<close>, and the destination holds at its path what it held
  before the run: the loop body returns the store as it was (nothing is read or
  written), and no other step of the run touches the path. The bytes of the two files
  play no part: only the two lengths do.
\<close>

theorem equal_size_file_skipped:
  assumes "sync_copy src dst w = (w', Inr res)"
    and "src_entries w = Some es" and "distinct_names es"
    and "(r, dirs, files) \<in> set (walk [] es)" and "(f, node) \<in> set files"
    and "exists (dest w) (r @ [f])"
    and "getsize_src node = Some n" and "getsize (dest w) (r @ [f]) = Some n"
  shows "rel_str (r @ [f]) \<in> set (get_list res ''skipped'') \<and>
         dest w' (r @ [f]) = dest w (r @ [f])"
proof -
  obtain fs1 out where sw: "sync_walk src dst (walk [] es) (dest w) init_results = (fs1, out)"
    by (cases "sync_walk src dst (walk [] es) (dest w) init_results")
  have o: "out = Inr res" "w' = w\<lparr>dest := fs1\<rparr>"
    using assms(1,2) sw by (auto simp: sync_copy_def split: if_splits)
  have "distinct (map fst (mirror_entries (walk [] es)))"
    using walk_distinct(1)[of es "[]"] assms(3) by simp
  then have d: "distinct (walk_files (walk [] es))" by (rule walk_files_distinct)
  have "rel_str (r @ [f]) \<in> set (get_list res ''skipped'') \<and> fs1 (r @ [f]) = dest w (r @ [f])"
    using has_keys_init sw[unfolded o(1)] d assms(4,5,6,7,8) by (rule sync_walk_skip)
  then show ?thesis using o(2) by simp
qed

theorem equal_size_file_skipped_witness:
  "\<exists>w' res. sync_copy ''/s'' ''/d'' partly_synced = (w', Inr res) \<and>
     ''a.txt'' \<in> set (get_list res ''skipped'') \<and>
     dest w' [''a.txt''] = Some (DFile ''wxyz'')"
proof -
  let ?es = "[(''a.txt'', SFile ''abcd''), (''sub'', SDir [(''b.txt'', SFile ''0123456789'')]),
              (''c.txt'', SFile ''xyz'')]"
  have "\<exists>w' res. sync_copy ''/s'' ''/d'' partly_synced = (w', Inr res)"
    by (simp add: partly_synced_def engine_defs)
  then obtain w' res where r: "sync_copy ''/s'' ''/d'' partly_synced = (w', Inr res)" by blast
  have 1: "src_entries partly_synced = Some ?es" by (simp add: partly_synced_def src_entries_def)
  have 2: "distinct_names ?es" by simp
  have 3: "([], [''sub''], [(''a.txt'', SFile ''abcd''), (''c.txt'', SFile ''xyz'')]) \<in> set (walk [] ?es)"
    by (simp add: walk.simps)
  have 4: "(''a.txt'', SFile ''abcd'') \<in> set [(''a.txt'', SFile ''abcd''), (''c.txt'', SFile ''xyz'')]"
    by simp
  have 5: "exists (dest partly_synced) ([] @ [''a.txt''])"
    by (simp add: partly_synced_def exists_def)
  have 6: "getsize_src (SFile ''abcd'') = Some 4" by simp
  have 7: "getsize (dest partly_synced) ([] @ [''a.txt'']) = Some 4"
    by (simp add: partly_synced_def getsize_def)
  have 8: "dest partly_synced ([] @ [''a.txt'']) = Some (DFile ''wxyz'')"
    by (simp add: partly_synced_def)
  from equal_size_file_skipped[OF r 1 2 3 4 5 6 7] 8 r show ?thesis by auto
qed

subsection \<open>Running twice\<close>

text \<open>
  C5. The claim: a second run right after a first one records every file under
  \<open>skipped\<close> and nothing elsewhere. At \<open>differing_sizes\<close> the first run fails to
  overwrite \<^verbatim>\<open>a.txt\<close> (the \<^verbatim>\<open>NameError\<close> of C1), so the second run meets the same
  two sizes and records the same error: \<open>skipped\<close> is empty and \<open>errors\<close> is not.
\<close>

theorem second_run_repeats_error:
  "(case sync_copy ''/s'' ''/d'' differing_sizes of
      (w1, first) \<Rightarrow>
        (case sync_copy ''/s'' ''/d'' w1 of
           (w2, Inr res) \<Rightarrow>
             get_list res ''skipped'' = [] \<and> get_list res ''new'' = [] \<and>
             get_list res ''overwritten'' = [] \<and>
             get_list res ''errors'' = [''a.txt -> name '' @ quoted ''false'' @ '' is not defined''] \<and>
             dest w2 [''a.txt''] = Some (DFile ''hello'')
         | (w2, Inl e) \<Rightarrow> False))"
  by (simp add: differing_sizes_def engine_defs)

text \<open>
  A dangling link of the source is not skipped either: \<^verbatim>\<open>os.path.exists\<close> follows the
  link copied by the first run and says no, and \<^verbatim>\<open>os.symlink\<close> then finds the link
  in its way.
\<close>

lemma second_run_dangling_link:
  "(case sync_copy ''/s'' ''/d'' fresh_copy of
      (w1, first) \<Rightarrow>
        (case sync_copy ''/s'' ''/d'' w1 of
           (w2, Inr res) \<Rightarrow>
             get_list res ''skipped'' = [''a.txt'', ''sub/b.txt''] \<and>
             get_list res ''errors'' = [''l -> '' @ str_exn (eexist2 ''/nowhere'' ''/d/l'')]
         | (w2, Inl e) \<Rightarrow> False))"
  by (simp add: fresh_copy_def empty_dest_def engine_defs)

end
